theory Spec2Isabelle
  imports Main "HOL-Library.AList"
begin

section \<open>Strings of the rule compiler\<close>

text \<open>
  The program is \<^verbatim>\<open>src/sing-box/compile-rules.ts\<close>. Its strings are sequences of code
  units. The model takes \<^typ>\<open>string\<close> for them and reads a \<^typ>\<open>char\<close> as the code
  unit of that number, so it covers the code units U+0000 to U+00FF; on these
  \<^verbatim>\<open>trim\<close> and \<^verbatim>\<open>toLowerCase\<close> are written out as ECMAScript defines them.
  Console output is left out throughout: it changes no value.
\<close>

definition isWhiteSpace :: "char \<Rightarrow> bool" where
  \<comment> \<open>WhiteSpace and LineTerminator of ECMAScript below U+0100:
      TAB, LF, VT, FF, CR, SPACE and NO-BREAK SPACE.\<close>
  "isWhiteSpace c = ((of_char c :: nat) \<in> {9, 10, 11, 12, 13, 32, 160})"

definition trim :: "string \<Rightarrow> string" where
  \<comment> \<open>\<^verbatim>\<open>String.prototype.trim\<close>\<close>
  "trim s = rev (dropWhile isWhiteSpace (rev (dropWhile isWhiteSpace s)))"

definition toLowerChar :: "char \<Rightarrow> char" where
  \<comment> \<open>A to Z, and the Latin-1 capitals U+00C0 to U+00DE without the
      multiplication sign U+00D7, move up by 32.\<close>
  "toLowerChar c =
     (let n = (of_char c :: nat)
      in if (65 \<le> n \<and> n \<le> 90) \<or> (192 \<le> n \<and> n \<le> 222 \<and> n \<noteq> 215)
         then char_of (n + 32) else c)"

definition toLowerCase :: "string \<Rightarrow> string" where
  \<comment> \<open>\<^verbatim>\<open>String.prototype.toLowerCase\<close>\<close>
  "toLowerCase s = map toLowerChar s"

definition startsWith :: "string \<Rightarrow> string \<Rightarrow> bool" where
  \<comment> \<open>\<^verbatim>\<open>s.startsWith(p)\<close>\<close>
  "startsWith s p = (take (length p) s = p)"

definition includes_str :: "string \<Rightarrow> char \<Rightarrow> bool" where
  \<comment> \<open>\<^verbatim>\<open>s.includes(c)\<close> for a one-character string \<open>c\<close>\<close>
  "includes_str s c = (c \<in> set s)"

function split :: "string \<Rightarrow> char \<Rightarrow> string list" where
  \<comment> \<open>\<^verbatim>\<open>s.split(sep)\<close> for a one-character separator: cut at every separator;
      a string without one is returned whole, also the empty string.\<close>
  "split s sep =
     (case dropWhile (\<lambda>c. c \<noteq> sep) s of
        [] \<Rightarrow> [s]
      | _ # r \<Rightarrow> takeWhile (\<lambda>c. c \<noteq> sep) s # split r sep)"
  by pat_completeness auto
termination
proof (relation "measure (\<lambda>(s, sep). length s)")
  show "wf (measure (\<lambda>(s, sep). length s))" by simp
next
  fix s :: string and sep x21 x22
  assume "dropWhile (\<lambda>c. c \<noteq> sep) s = x21 # x22"
  then have "length (x21 # x22) \<le> length s"
    by (metis length_dropWhile_le)
  then show "((x22, sep), s, sep) \<in> measure (\<lambda>(s, sep). length s)" by simp
qed

declare split.simps [simp del]

definition splitLimit :: "string \<Rightarrow> char \<Rightarrow> nat \<Rightarrow> string list" where
  \<comment> \<open>\<^verbatim>\<open>s.split(sep, n)\<close>: the first \<open>n\<close> pieces of the split; what follows
      them is dropped, not kept in the last piece.\<close>
  "splitLimit s sep n = take n (split s sep)"

definition isDigit :: "char \<Rightarrow> bool" where
  \<comment> \<open>the class \<^verbatim>\<open>\d\<close>, which is 0 to 9 only\<close>
  "isDigit c = (c \<in> set ''0123456789'')"

definition isHexDigit :: "char \<Rightarrow> bool" where
  \<comment> \<open>the ranges \<^verbatim>\<open>0-9a-fA-F\<close> of the class \<^verbatim>\<open>[0-9a-fA-F:]\<close>\<close>
  "isHexDigit c = (c \<in> set ''0123456789abcdefABCDEF'')"

definition allDigits :: "string \<Rightarrow> bool" where
  \<comment> \<open>\<^verbatim>\<open>/^\d+$/.test(p)\<close>: one digit at least and nothing else\<close>
  "allDigits p = (p \<noteq> [] \<and> list_all isDigit p)"

definition Number :: "string \<Rightarrow> nat" where
  \<comment> \<open>\<^verbatim>\<open>Number(p)\<close> on the only arguments the program gives it: a string of
      decimal digits, or the empty string, whose number is 0. The program
      compares the result with 255, 32 and 128 only; rounding to a double is
      monotone and keeps these, so the comparisons are those of the exact value.\<close>
  "Number p = foldl (\<lambda>n c. 10 * n + (of_char c - 48)) 0 p"

section \<open>Classifier and normalizers\<close>

definition normalizeDomainSuffix :: "string \<Rightarrow> string" where
  "normalizeDomainSuffix value =
     (let v = toLowerCase (trim value);
          v = (if startsWith v ''*.'' then drop 2 v else v);
          v = (if startsWith v ''.'' then drop 1 v else v)
      in v)"

definition isIPv4 :: "string \<Rightarrow> bool" where
  "isIPv4 value =
     (let parts = split value (CHR ''.'')
      in if length parts \<noteq> 4 then False
         else list_all (\<lambda>p. if \<not> allDigits p then False
                             else (let n = Number p in 0 \<le> n \<and> n \<le> 255)) parts)"

definition isIPv6 :: "string \<Rightarrow> bool" where
  \<comment> \<open>\<^verbatim>\<open>/^[0-9a-fA-F:]+$/\<close>: one character at least, each a hex digit or a colon\<close>
  "isIPv6 value =
     (includes_str value (CHR '':'') \<and>
      value \<noteq> [] \<and> list_all (\<lambda>c. isHexDigit c \<or> c = CHR '':'') value)"

definition normalizeCidr :: "string \<Rightarrow> string" where
  "normalizeCidr value =
     (let v = trim value
      in if includes_str v (CHR ''/'') then v
         else if isIPv4 v then v @ ''/32''
         else if isIPv6 v then v @ ''/128''
         else v)"

definition isIpOrCidr :: "string \<Rightarrow> bool" where
  \<comment> \<open>\<open>prefix\<close> is \<open>None\<close> for the source's \<^verbatim>\<open>undefined\<close>: the split gave one
      piece only. A split has one piece at least, so the empty \<open>ip\<close> of the
      first case is never taken for a missing piece.\<close>
  "isIpOrCidr value =
     (let v = trim value;
          parts = splitLimit v (CHR ''/'') 2;
          ip = (case parts of [] \<Rightarrow> [] | a # _ \<Rightarrow> a);
          prefix = (case parts of _ # b # _ \<Rightarrow> Some b | _ \<Rightarrow> None)
      in if ip = [] then False
         else if (case prefix of None \<Rightarrow> False | Some p \<Rightarrow> p \<noteq> [] \<and> \<not> allDigits p) then False
         else if isIPv4 ip then
           (case prefix of None \<Rightarrow> True | Some p \<Rightarrow> 0 \<le> Number p \<and> Number p \<le> 32)
         else if isIPv6 ip then
           (case prefix of None \<Rightarrow> True | Some p \<Rightarrow> 0 \<le> Number p \<and> Number p \<le> 128)
         else False)"

section \<open>Accumulators, sources and the main loop\<close>

record OutboundData =
  domains :: "string list"
  subnets :: "string list"

record Rule =
  rule_domains :: "string option"
  rule_subnets :: "string option"
  rule_list :: "string list option"
  rule_outbound :: string

record Config =
  config_rules :: "Rule list"

definition addMixedEntry :: "string \<Rightarrow> OutboundData \<Rightarrow> OutboundData" where
  "addMixedEntry value data =
     (let v = trim value
      in if v = [] then data
         else if isIpOrCidr v then data\<lparr>subnets := subnets data @ [normalizeCidr v]\<rparr>
         else data\<lparr>domains := domains data @ [normalizeDomainSuffix v]\<rparr>)"

text \<open>
  What the program reads and runs outside itself: the body of a URL (\<open>None\<close> when the
  fetch fails or the response is not ok), the text of the file a source names under the
  base directory (\<open>None\<close> when it cannot be read), and whether the rule-set compiler
  succeeds on a written document.
\<close>

datatype rule_block = domain_suffix "string list" | ip_cidr "string list"

record RuleSetDocument =
  version :: nat
  rules :: "rule_block list"

record Env =
  fetch :: "string \<Rightarrow> string option"
  readFile :: "string \<Rightarrow> string option"
  compile :: "string \<Rightarrow> RuleSetDocument \<Rightarrow> bool"

datatype error = LoadError string

definition readLines :: "Env \<Rightarrow> string \<Rightarrow> error + string list" where
  "readLines env source =
     (case (if startsWith source ''http://'' \<or> startsWith source ''https://''
            then fetch env source else readFile env source) of
        None \<Rightarrow> Inl (LoadError source)
      | Some content \<Rightarrow>
          Inr (filter (\<lambda>line. line \<noteq> [] \<and> \<not> startsWith line ''#'')
                 (map trim (split content (CHR 0x0A)))))"

datatype outcome =
    Skipping string
  | Compiled string RuleSetDocument
  | FailedToCompile string RuleSetDocument

definition generateSrs :: "Env \<Rightarrow> string \<Rightarrow> OutboundData \<Rightarrow> outcome" where
  \<comment> \<open>The document is written before the compiler runs, so both \<open>Compiled\<close> and
      \<open>FailedToCompile\<close> carry it; a compiler failure is caught, not raised.\<close>
  "generateSrs env outboundName data =
     (let rules = [];
          rules = (if length (domains data) > 0 then rules @ [domain_suffix (domains data)] else rules);
          rules = (if length (subnets data) > 0 then rules @ [ip_cidr (subnets data)] else rules)
      in if length rules = 0 then Skipping outboundName
         else (let ruleSet = \<lparr>version = 3, rules = rules\<rparr>
               in if compile env outboundName ruleSet then Compiled outboundName ruleSet
                  else FailedToCompile outboundName ruleSet))"

definition processEntry :: "Env \<Rightarrow> string \<Rightarrow> OutboundData \<Rightarrow> error + OutboundData" where
  \<comment> \<open>The body of the loop over \<^verbatim>\<open>rule.list\<close>. An entry is a string, as the
      interface \<^verbatim>\<open>Rule\<close> declares it, and \<^verbatim>\<open>String(entry ?? "")\<close> leaves a string as
      it is. A load that fails is raised and ends the run.\<close>
  "processEntry env entry data =
     (let v = trim entry
      in if v = [] then Inr data
         else if isIpOrCidr v then Inr (data\<lparr>subnets := subnets data @ [normalizeCidr v]\<rparr>)
         else if startsWith v ''http://'' \<or> startsWith v ''https://'' \<or> includes_str v (CHR ''/'')
         then (case readLines env v of
                 Inl e \<Rightarrow> Inl e
               | Inr lines \<Rightarrow> Inr (foldl (\<lambda>d line. addMixedEntry line d) data lines))
         else Inr (data\<lparr>domains := domains data @ [normalizeDomainSuffix v]\<rparr>))"

fun processList :: "Env \<Rightarrow> string list \<Rightarrow> OutboundData \<Rightarrow> error + OutboundData" where
  "processList env [] data = Inr data"
| "processList env (entry # rest) data =
     (case processEntry env entry data of
        Inl e \<Rightarrow> Inl e
      | Inr data' \<Rightarrow> processList env rest data')"

definition processRule ::
  "Env \<Rightarrow> Rule \<Rightarrow> (string \<times> OutboundData) list \<Rightarrow> error + (string \<times> OutboundData) list" where
  \<comment> \<open>The body of the loop over \<^verbatim>\<open>config.rules\<close>. The map of outbounds keeps its keys in
      the order they were set, so it is an association list. An absent or empty
      source string, and an absent or empty list, are skipped.\<close>
  "processRule env rule outbounds =
     (let key = rule_outbound rule;
          outbounds = (if map_of outbounds key = None
                       then AList.update key \<lparr>domains = [], subnets = []\<rparr> outbounds
                       else outbounds);
          data = (case map_of outbounds key of Some d \<Rightarrow> d | None \<Rightarrow> \<lparr>domains = [], subnets = []\<rparr>)
      in case (case rule_domains rule of
                 None \<Rightarrow> Inr data
               | Some src \<Rightarrow>
                   if src = [] then Inr data
                   else (case readLines env src of
                           Inl e \<Rightarrow> Inl e
                         | Inr ls \<Rightarrow> Inr (data\<lparr>domains := domains data @ map normalizeDomainSuffix ls\<rparr>))) of
           Inl e \<Rightarrow> Inl e
         | Inr data \<Rightarrow>
        (case (case rule_subnets rule of
                 None \<Rightarrow> Inr data
               | Some src \<Rightarrow>
                   if src = [] then Inr data
                   else (case readLines env src of
                           Inl e \<Rightarrow> Inl e
                         | Inr ls \<Rightarrow> Inr (data\<lparr>subnets := subnets data @ map normalizeCidr ls\<rparr>))) of
           Inl e \<Rightarrow> Inl e
         | Inr data \<Rightarrow>
        (case (case rule_list rule of
                 None \<Rightarrow> Inr data
               | Some entries \<Rightarrow>
                   if length entries > 0 then processList env entries data else Inr data) of
           Inl e \<Rightarrow> Inl e
         | Inr data \<Rightarrow> Inr (AList.update key data outbounds))))"

fun processRules ::
  "Env \<Rightarrow> Rule list \<Rightarrow> (string \<times> OutboundData) list \<Rightarrow> error + (string \<times> OutboundData) list" where
  "processRules env [] outbounds = Inr outbounds"
| "processRules env (rule # rest) outbounds =
     (case processRule env rule outbounds of
        Inl e \<Rightarrow> Inl e
      | Inr outbounds' \<Rightarrow> processRules env rest outbounds')"

definition newSet :: "'a list \<Rightarrow> 'a list" where
  \<comment> \<open>\<^verbatim>\<open>[...new Set(xs)]\<close>: a set keeps its elements in the order they were first
      added, and adding one it has changes nothing.\<close>
  "newSet xs = foldl (\<lambda>s x. if x \<in> set s then s else s @ [x]) [] xs"

definition deduplicate :: "OutboundData \<Rightarrow> OutboundData" where
  "deduplicate data = data\<lparr>domains := newSet (domains data), subnets := newSet (subnets data)\<rparr>"

definition main :: "Env \<Rightarrow> Config \<Rightarrow> error + outcome list" where
  \<comment> \<open>A load that fails rejects \<^verbatim>\<open>main\<close> before anything is generated.\<close>
  "main env config =
     (case processRules env (config_rules config) [] of
        Inl e \<Rightarrow> Inl e
      | Inr outbounds \<Rightarrow>
          Inr (map (\<lambda>(outbound, data). generateSrs env outbound (deduplicate data)) outbounds))"

section \<open>Notions of the specification\<close>

datatype ip_class = IPv4 | IPv6 | NotIp

definition classifyIp :: "string \<Rightarrow> ip_class" where
  \<comment> \<open>The source has no function of this name: it is the cascade that both
      \<^verbatim>\<open>normalizeCidr\<close> and \<^verbatim>\<open>isIpOrCidr\<close> run, \<^verbatim>\<open>isIPv4\<close> first, then \<^verbatim>\<open>isIPv6\<close>.\<close>
  "classifyIp v = (if isIPv4 v then IPv4 else if isIPv6 v then IPv6 else NotIp)"

definition octet :: "string \<Rightarrow> bool" where
  \<comment> \<open>a part that consists of decimal digits, one at least so that it has a
      numeric value, and whose value is in [0,255]\<close>
  "octet p = (p \<noteq> [] \<and> (\<forall>c\<in>set p. isDigit c) \<and> Number p \<le> 255)"

definition isIpOrCidr_spec :: "string \<Rightarrow> bool" where
  \<comment> \<open>The contract as the specification words it: the token as given is cut at its
      first slash, and the prefix part is all that follows that slash.\<close>
  "isIpOrCidr_spec token =
     (let address = takeWhile (\<lambda>c. c \<noteq> CHR ''/'') token;
          prefixStr = (case dropWhile (\<lambda>c. c \<noteq> CHR ''/'') token of
                         [] \<Rightarrow> None | _ # rest \<Rightarrow> Some rest)
      in if address = [] then False
         else if (case prefixStr of
                    None \<Rightarrow> False
                  | Some p \<Rightarrow> p \<noteq> [] \<and> \<not> (\<forall>c\<in>set p. isDigit c)) then False
         else (case classifyIp address of
                 IPv4 \<Rightarrow> (case prefixStr of None \<Rightarrow> True | Some p \<Rightarrow> Number p \<le> 32)
               | IPv6 \<Rightarrow> (case prefixStr of None \<Rightarrow> True | Some p \<Rightarrow> Number p \<le> 128)
               | NotIp \<Rightarrow> False))"

definition normalizeDomainSuffix_spec :: "string \<Rightarrow> string" where
  \<comment> \<open>The normalizer as the specification words it: the leading dot is stripped
      only when no wildcard prefix was.\<close>
  "normalizeDomainSuffix_spec token =
     (let v = toLowerCase (trim token)
      in if startsWith v ''*.'' then drop 2 v
         else if startsWith v ''.'' then drop 1 v
         else v)"

datatype ClassifiedToken = Domain string | Subnet string

definition resolveMixedEntry :: "string \<Rightarrow> ClassifiedToken option" where
  \<comment> \<open>The Mixed-Entry Resolver of the specification; \<open>None\<close> is its no-op.\<close>
  "resolveMixedEntry line =
     (if trim line = [] then None
      else if isIpOrCidr line then Some (Subnet (normalizeCidr line))
      else Some (Domain (normalizeDomainSuffix line)))"

fun route :: "ClassifiedToken option \<Rightarrow> OutboundData \<Rightarrow> OutboundData" where
  "route None data = data"
| "route (Some (Subnet s)) data = data\<lparr>subnets := subnets data @ [s]\<rparr>"
| "route (Some (Domain s)) data = data\<lparr>domains := domains data @ [s]\<rparr>"

definition firstIndex :: "'a list \<Rightarrow> 'a \<Rightarrow> nat" where
  \<comment> \<open>where an element occurs first\<close>
  "firstIndex xs x = length (takeWhile (\<lambda>y. y \<noteq> x) xs)"

definition normalized :: "OutboundData \<Rightarrow> bool" where
  \<comment> \<open>the invariant of an accumulator\<close>
  "normalized data =
     (set (domains data) \<subseteq> range normalizeDomainSuffix \<and>
      set (subnets data) \<subseteq> range normalizeCidr)"

fun document_of :: "outcome \<Rightarrow> RuleSetDocument option" where
  "document_of (Skipping name) = None"
| "document_of (Compiled name doc) = Some doc"
| "document_of (FailedToCompile name doc) = Some doc"

section \<open>An environment and a configuration to run the program on\<close>

definition example_env :: Env where
  \<comment> \<open>two files, no network, a compiler that succeeds\<close>
  "example_env =
     \<lparr>fetch = (\<lambda>url. None),
      readFile = (\<lambda>source.
         if source = ''./extra-list.txt''
         then Some ''# more entries\<newline>8.8.8.8\<newline>\<newline>  *.Foo.org \<newline>8.8.8.8''
         else if source = ''nets.txt'' then Some ''1.1.1.1/32\<newline>''
         else None),
      compile = (\<lambda>name doc. True)\<rparr>"

definition example_config :: Config where
  \<comment> \<open>the two declarations of the end-to-end example of the specification, and a
      third one whose outbound collects nothing\<close>
  "example_config =
     \<lparr>config_rules =
        [\<lparr>rule_domains = None, rule_subnets = None,
          rule_list = Some [''8.8.8.8'', ''example.com''], rule_outbound = ''direct''\<rparr>,
         \<lparr>rule_domains = None, rule_subnets = Some ''nets.txt'',
          rule_list = None, rule_outbound = ''direct''\<rparr>,
         \<lparr>rule_domains = None, rule_subnets = None,
          rule_list = Some [''  ''], rule_outbound = ''block''\<rparr>]\<rparr>"

section \<open>Strings: trimming, lower case, splitting\<close>

lemma length_trim_le: "length (trim s) \<le> length s"
  unfolding trim_def
  by (metis length_rev length_dropWhile_le le_trans)

lemma dropWhile_none: "\<forall>c\<in>set s. \<not> P c \<Longrightarrow> dropWhile P s = s"
  by (cases s) auto

lemma trim_no_ws: "\<forall>c\<in>set s. \<not> isWhiteSpace c \<Longrightarrow> trim s = s"
  unfolding trim_def by (simp add: dropWhile_none)

lemma trim_last: "trim s \<noteq> [] \<Longrightarrow> \<not> isWhiteSpace (last (trim s))"
  unfolding trim_def by (simp add: last_rev hd_dropWhile) 

lemma trim_hd: "trim s \<noteq> [] \<Longrightarrow> \<not> isWhiteSpace (hd (trim s))"
  by (metis append_is_Nil_conv hd_dropWhile last_appendR last_rev
    rev.simps(1) rev_rev_ident takeWhile_dropWhile_id trim_def)

lemma trim_eq_iff:
  "trim s = s \<longleftrightarrow> s = [] \<or> (\<not> isWhiteSpace (hd s) \<and> \<not> isWhiteSpace (last s))"
proof
  assume "trim s = s"
  then show "s = [] \<or> (\<not> isWhiteSpace (hd s) \<and> \<not> isWhiteSpace (last s))"
    using trim_hd [of s] trim_last [of s] by auto
next
  assume r: "s = [] \<or> (\<not> isWhiteSpace (hd s) \<and> \<not> isWhiteSpace (last s))"
  show "trim s = s"
  proof (cases "s = []")
    case True
    then show ?thesis by (simp add: trim_def)
  next
    case False
    with r have h: "\<not> isWhiteSpace (hd s)" and l: "\<not> isWhiteSpace (last s)" by auto
    from h have 1: "dropWhile isWhiteSpace s = s"
      by (simp add: dropWhile_eq_self_iff)
    from l False have "\<not> isWhiteSpace (hd (rev s))"
      by (simp add: hd_rev)
    then have 2: "dropWhile isWhiteSpace (rev s) = rev s"
      by (simp add: dropWhile_eq_self_iff)
    show ?thesis by (simp add: trim_def 1 2)
  qed
qed

lemma trim_idem: "trim (trim s) = trim s"
  using trim_eq_iff [of "trim s"] trim_last [of s] trim_hd [of s] by blast

lemma set_trim: "set (trim s) \<subseteq> set s"
  unfolding trim_def by (metis set_rev set_dropWhileD subsetI)

lemma trim_Nil: "trim [] = []"
  by (simp add: trim_def)

lemma toLowerChar_idem: "toLowerChar (toLowerChar c) = toLowerChar c"
  by (auto simp: toLowerChar_def Let_def of_char_of)

lemma isWhiteSpace_toLowerChar: "isWhiteSpace (toLowerChar c) = isWhiteSpace c"
  by (auto simp: toLowerChar_def isWhiteSpace_def Let_def of_char_of)

lemma toLowerCase_fixed: "\<forall>c\<in>set s. toLowerChar c = c \<Longrightarrow> toLowerCase s = s"
  by (simp add: toLowerCase_def map_idI)

lemma split_no_sep: "sep \<notin> set s \<Longrightarrow> split s sep = [s]"
proof -
  assume "sep \<notin> set s"
  then have d: "dropWhile (\<lambda>c. c \<noteq> sep) s = []" by auto
  show ?thesis by (subst split.simps) (simp only: d list.case)
qed

lemma split_sep: "sep \<notin> set a \<Longrightarrow> split (a @ sep # r) sep = a # split r sep"
proof -
  assume a: "sep \<notin> set a"
  then have d: "dropWhile (\<lambda>c. c \<noteq> sep) (a @ sep # r) = sep # r"
    by (induction a) auto
  from a have t: "takeWhile (\<lambda>c. c \<noteq> sep) (a @ sep # r) = a"
    by (induction a) auto
  show ?thesis by (subst split.simps) (simp only: d t list.case)
qed

lemma split_cases:
  fixes s :: string
  obtains (single) "sep \<notin> set s" "split s sep = [s]"
  | (more) a r where "s = a @ sep # r" "sep \<notin> set a" "split s sep = a # split r sep"
proof (cases "sep \<in> set s")
  case False
  then show ?thesis using single split_no_sep by blast
next
  case True
  define a where "a = takeWhile (\<lambda>c. c \<noteq> sep) s"
  define r where "r = tl (dropWhile (\<lambda>c. c \<noteq> sep) s)"
  from True have ne: "dropWhile (\<lambda>c. c \<noteq> sep) s \<noteq> []" by auto
  then have "hd (dropWhile (\<lambda>c. c \<noteq> sep) s) = sep"
    using hd_dropWhile [of "\<lambda>c. c \<noteq> sep" s] by simp
  with ne have "dropWhile (\<lambda>c. c \<noteq> sep) s = sep # r"
    by (cases "dropWhile (\<lambda>c. c \<noteq> sep) s") (auto simp: r_def)
  then have s: "s = a @ sep # r"
    unfolding a_def by (metis takeWhile_dropWhile_id)
  have a: "sep \<notin> set a"
    unfolding a_def by (auto dest: set_takeWhileD)
  show ?thesis using more [OF s a] split_sep [OF a] s by simp
qed

lemma split_not_Nil: "split s sep \<noteq> []"
  by (rule split_cases [where s = s and sep = sep]) auto

lemma split_eq_single:
  fixes s :: string
  assumes "split s sep = [a]"
  shows "s = a \<and> sep \<notin> set a"
proof (rule split_cases [where s = s and sep = sep])
  assume "sep \<notin> set s" "split s sep = [s]"
  with assms show ?thesis by simp
next
  fix b r assume "s = b @ sep # r" "sep \<notin> set b" "split s sep = b # split r sep"
  with assms split_not_Nil [of r sep] show ?thesis by simp
qed

lemma split_eq_Cons2:
  fixes s :: string
  assumes "split s sep = a # b # rest"
  shows "\<exists>r. s = a @ sep # r \<and> sep \<notin> set a \<and> split r sep = b # rest"
proof (rule split_cases [where s = s and sep = sep])
  assume "sep \<notin> set s" "split s sep = [s]"
  with assms show ?thesis by simp
next
  fix a' r assume "s = a' @ sep # r" "sep \<notin> set a'" "split s sep = a' # split r sep"
  with assms show ?thesis by auto
qed

lemma isDigit_not_dot: "isDigit c \<Longrightarrow> c \<noteq> CHR ''.''"
  unfolding isDigit_def by (rule notI) simp

lemma octet_iff: "octet p \<longleftrightarrow> allDigits p \<and> Number p \<le> 255"
  by (simp add: octet_def allDigits_def list_all_iff)

lemma octet_no_dot: "octet p \<Longrightarrow> CHR ''.'' \<notin> set p"
proof
  assume "octet p" and "CHR ''.'' \<in> set p"
  then have "isDigit (CHR ''.'')" by (simp add: octet_def)
  then show False by (simp add: isDigit_def)
qed

lemma isIPv6_iff:
  "isIPv6 t \<longleftrightarrow> CHR '':'' \<in> set t \<and> (\<forall>c\<in>set t. isHexDigit c \<or> c = CHR '':'')"
proof -
  have "CHR '':'' \<in> set t \<Longrightarrow> t \<noteq> []" by (cases t) simp_all
  then show ?thesis
    unfolding isIPv6_def includes_str_def list_all_iff by fastforce
qed

section \<open>The token classifier\<close>

lemma isIPv4_iff:
  "isIPv4 t \<longleftrightarrow>
     (\<exists>a b c d. t = a @ ''.'' @ b @ ''.'' @ c @ ''.'' @ d \<and> octet a \<and> octet b \<and> octet c \<and> octet d)"
proof
  assume v4: "isIPv4 t"
  then have len: "length (split t (CHR ''.'')) = 4"
    by (simp add: isIPv4_def Let_def split: if_splits)
  then obtain a b c d where parts: "split t (CHR ''.'') = [a, b, c, d]"
    by (auto simp: length_Suc_conv numeral_eq_Suc)
  with v4 have o: "octet a" "octet b" "octet c" "octet d"
    by (simp_all add: isIPv4_def Let_def octet_iff split: if_splits)
  from split_eq_Cons2 [OF parts] obtain r1 where
    1: "t = a @ CHR ''.'' # r1" "split r1 (CHR ''.'') = [b, c, d]" by blast
  from split_eq_Cons2 [OF 1(2)] obtain r2 where
    2: "r1 = b @ CHR ''.'' # r2" "split r2 (CHR ''.'') = [c, d]" by blast
  from split_eq_Cons2 [OF 2(2)] obtain r3 where
    3: "r2 = c @ CHR ''.'' # r3" "split r3 (CHR ''.'') = [d]" by blast
  from split_eq_single [OF 3(2)] have "r3 = d" by simp
  with 1 2 3 have "t = a @ ''.'' @ b @ ''.'' @ c @ ''.'' @ d" by simp
  with o show "\<exists>a b c d. t = a @ ''.'' @ b @ ''.'' @ c @ ''.'' @ d \<and> octet a \<and> octet b \<and> octet c \<and> octet d"
    by blast
next
  assume "\<exists>a b c d. t = a @ ''.'' @ b @ ''.'' @ c @ ''.'' @ d \<and> octet a \<and> octet b \<and> octet c \<and> octet d"
  then obtain a b c d where t: "t = a @ CHR ''.'' # b @ CHR ''.'' # c @ CHR ''.'' # d"
    and o: "octet a" "octet b" "octet c" "octet d" by auto
  have "split t (CHR ''.'') = [a, b, c, d]"
    unfolding t using o by (simp add: split_sep split_no_sep octet_no_dot)
  with o show "isIPv4 t"
    by (simp add: isIPv4_def Let_def octet_iff)
qed

text \<open>
  Claim C2. A token is classified IPv4 exactly when it is four parts joined by dots, each
  part a decimal numeral (leading zeros allowed) with a value from 0 to 255; it is
  classified IPv6 exactly when it is not IPv4, has a colon and consists of hex digits and
  colons only; every other token is NotIp. The four tokens of the specification are
  classified as it says.
\<close>

theorem classifyIp_correct:
  "(classifyIp token = IPv4 \<longleftrightarrow>
      (\<exists>a b c d. token = a @ ''.'' @ b @ ''.'' @ c @ ''.'' @ d \<and>
         octet a \<and> octet b \<and> octet c \<and> octet d)) \<and>
   (classifyIp token = IPv6 \<longleftrightarrow>
      classifyIp token \<noteq> IPv4 \<and> CHR '':'' \<in> set token \<and>
      (\<forall>c\<in>set token. isHexDigit c \<or> c = CHR '':'')) \<and>
   (classifyIp token = NotIp \<longleftrightarrow> classifyIp token \<noteq> IPv4 \<and> classifyIp token \<noteq> IPv6) \<and>
   classifyIp ''1.2.3.4'' = IPv4 \<and> classifyIp ''300.1.1.1'' = NotIp \<and>
   classifyIp ''::1'' = IPv6 \<and> classifyIp ''example.com'' = NotIp"
proof -
  have 1: "classifyIp token = IPv4 \<longleftrightarrow>
      (\<exists>a b c d. token = a @ ''.'' @ b @ ''.'' @ c @ ''.'' @ d \<and>
         octet a \<and> octet b \<and> octet c \<and> octet d)"
    unfolding isIPv4_iff [symmetric] by (simp add: classifyIp_def)
  have 2: "classifyIp token = IPv6 \<longleftrightarrow>
      classifyIp token \<noteq> IPv4 \<and> CHR '':'' \<in> set token \<and>
      (\<forall>c\<in>set token. isHexDigit c \<or> c = CHR '':'')"
    unfolding isIPv6_iff [symmetric] by (simp add: classifyIp_def)
  have 3: "classifyIp token = NotIp \<longleftrightarrow> classifyIp token \<noteq> IPv4 \<and> classifyIp token \<noteq> IPv6"
    by (cases "classifyIp token") simp_all
  have e1: "classifyIp ''1.2.3.4'' = IPv4" by code_simp
  have e2: "classifyIp ''300.1.1.1'' = NotIp" by code_simp
  have e3: "classifyIp ''::1'' = IPv6" by code_simp
  have e4: "classifyIp ''example.com'' = NotIp" by code_simp
  show ?thesis
    by (intro conjI 1 2 3 e1 e2 e3 e4)
qed

theorem classifyIp_correct_witness:
  "classifyIp ''010.0.0.255'' = IPv4 \<and>
   (\<exists>a b c d. ''010.0.0.255'' = a @ ''.'' @ b @ ''.'' @ c @ ''.'' @ d \<and>
      octet a \<and> octet b \<and> octet c \<and> octet d)"
proof -
  have h: "classifyIp ''010.0.0.255'' = IPv4" by code_simp
  from classifyIp_correct [of "''010.0.0.255''"]
  have "classifyIp ''010.0.0.255'' = IPv4 \<longleftrightarrow>
      (\<exists>a b c d. ''010.0.0.255'' = a @ ''.'' @ b @ ''.'' @ c @ ''.'' @ d \<and>
         octet a \<and> octet b \<and> octet c \<and> octet d)"
    by (rule conjunct1)
  with h show ?thesis by (simp only: simp_thms)
qed

section \<open>The normalizers\<close>

text \<open>
  Claim C4. \<^verbatim>\<open>normalizeCidr\<close> trims its token; a trimmed token with a slash is returned as
  it is, one without a slash gets \<^verbatim>\<open>/32\<close> when it is IPv4 and \<^verbatim>\<open>/128\<close> when it is
  IPv6, and is returned as it is when it is neither. The function is total: no token
  makes it fail.
\<close>

theorem normalizeCidr_correct:
  "(CHR ''/'' \<in> set (trim token) \<longrightarrow> normalizeCidr token = trim token) \<and>
   (CHR ''/'' \<notin> set (trim token) \<and> classifyIp (trim token) = IPv4 \<longrightarrow>
      normalizeCidr token = trim token @ ''/32'') \<and>
   (CHR ''/'' \<notin> set (trim token) \<and> classifyIp (trim token) = IPv6 \<longrightarrow>
      normalizeCidr token = trim token @ ''/128'') \<and>
   (CHR ''/'' \<notin> set (trim token) \<and> classifyIp (trim token) = NotIp \<longrightarrow>
      normalizeCidr token = trim token) \<and>
   normalizeCidr ''1.2.3.4'' = ''1.2.3.4/32'' \<and>
   normalizeCidr ''::1'' = ''::1/128'' \<and>
   normalizeCidr ''10.0.0.0/8'' = ''10.0.0.0/8''"
proof -
  have e1: "normalizeCidr ''1.2.3.4'' = ''1.2.3.4/32''" by code_simp
  have e2: "normalizeCidr ''::1'' = ''::1/128''" by code_simp
  have e3: "normalizeCidr ''10.0.0.0/8'' = ''10.0.0.0/8''" by code_simp
  have g: "(CHR ''/'' \<in> set (trim token) \<longrightarrow> normalizeCidr token = trim token) \<and>
   (CHR ''/'' \<notin> set (trim token) \<and> classifyIp (trim token) = IPv4 \<longrightarrow>
      normalizeCidr token = trim token @ ''/32'') \<and>
   (CHR ''/'' \<notin> set (trim token) \<and> classifyIp (trim token) = IPv6 \<longrightarrow>
      normalizeCidr token = trim token @ ''/128'') \<and>
   (CHR ''/'' \<notin> set (trim token) \<and> classifyIp (trim token) = NotIp \<longrightarrow>
      normalizeCidr token = trim token)"
    by (simp add: normalizeCidr_def classifyIp_def includes_str_def Let_def)
  from g e1 e2 e3 show ?thesis by (simp only: simp_thms)
qed

theorem normalizeCidr_correct_witness:
  "CHR ''/'' \<notin> set (trim '' 1.2.3.4 '') \<and> classifyIp (trim '' 1.2.3.4 '') = IPv4 \<and>
   normalizeCidr '' 1.2.3.4 '' = ''1.2.3.4/32''"
proof -
  have t: "trim '' 1.2.3.4 '' = ''1.2.3.4''" by code_simp
  have h1: "CHR ''/'' \<notin> set (trim '' 1.2.3.4 '')" unfolding t by simp
  have h2: "classifyIp (trim '' 1.2.3.4 '') = IPv4" by code_simp
  from normalizeCidr_correct [of "'' 1.2.3.4 ''"] h1 h2
  have "normalizeCidr '' 1.2.3.4 '' = trim '' 1.2.3.4 '' @ ''/32''" by (simp only: simp_thms)
  then have "normalizeCidr '' 1.2.3.4 '' = ''1.2.3.4/32''" unfolding t by simp
  with h1 h2 show ?thesis by (simp only: simp_thms)
qed

lemma startsWith_iff: "startsWith v p \<longleftrightarrow> (\<exists>r. v = p @ r)"
proof
  assume "startsWith v p"
  then have "v = p @ drop (length p) v"
    unfolding startsWith_def by (metis append_take_drop_id)
  then show "\<exists>r. v = p @ r" ..
next
  assume "\<exists>r. v = p @ r"
  then show "startsWith v p" by (auto simp: startsWith_def)
qed

lemma normalizeDomainSuffix_cases:
  fixes token :: string
  defines "v \<equiv> toLowerCase (trim token)"
  shows "(startsWith v ''*..'' \<longrightarrow> normalizeDomainSuffix token = drop 3 v) \<and>
         (startsWith v ''*.'' \<and> \<not> startsWith v ''*..'' \<longrightarrow> normalizeDomainSuffix token = drop 2 v) \<and>
         (\<not> startsWith v ''*.'' \<and> startsWith v ''.'' \<longrightarrow> normalizeDomainSuffix token = drop 1 v) \<and>
         (\<not> startsWith v ''*.'' \<and> \<not> startsWith v ''.'' \<longrightarrow> normalizeDomainSuffix token = v)"
proof -
  have n: "normalizeDomainSuffix token =
      (let w = (if startsWith v ''*.'' then drop 2 v else v)
       in if startsWith w ''.'' then drop 1 w else w)"
    by (simp add: normalizeDomainSuffix_def v_def Let_def)
  have 1: "startsWith v ''*..'' \<Longrightarrow> normalizeDomainSuffix token = drop 3 v"
  proof -
    assume "startsWith v ''*..''"
    then obtain r where "v = ''*..'' @ r" unfolding startsWith_iff ..
    then show ?thesis unfolding n by (simp add: startsWith_def)
  qed
  have 2: "startsWith v ''*.'' \<Longrightarrow> \<not> startsWith v ''*..'' \<Longrightarrow> normalizeDomainSuffix token = drop 2 v"
  proof -
    assume a: "startsWith v ''*.''" and b: "\<not> startsWith v ''*..''"
    from a obtain r where v: "v = ''*.'' @ r" unfolding startsWith_iff ..
    with b have "\<not> startsWith r ''.''"
      by (cases r) (simp_all add: startsWith_def)
    with v show ?thesis unfolding n by (simp add: startsWith_def)
  qed
  have 3: "\<not> startsWith v ''*.'' \<Longrightarrow> startsWith v ''.'' \<Longrightarrow> normalizeDomainSuffix token = drop 1 v"
    unfolding n by simp
  have 4: "\<not> startsWith v ''*.'' \<Longrightarrow> \<not> startsWith v ''.'' \<Longrightarrow> normalizeDomainSuffix token = v"
    unfolding n by simp
  from 1 2 3 4 show ?thesis by blast
qed

text \<open>
  Claim C3, as stated, says that a leading dot is stripped only when no wildcard prefix
  was. The program runs the two tests one after the other, so a token that starts with
  \<^verbatim>\<open>*..\<close> loses the wildcard prefix and then the dot as well.
\<close>

theorem normalizeDomainSuffix_counterexample:
  "normalizeDomainSuffix ''*..a'' = ''a'' \<and> normalizeDomainSuffix_spec ''*..a'' = ''.a''"
  by code_simp

text \<open>
  Claim C3, amended. \<^verbatim>\<open>normalizeDomainSuffix\<close> trims and lowercases its token, strips a
  leading \<^verbatim>\<open>*.\<close> if there is one, and then strips one leading dot if there is one,
  also after a \<^verbatim>\<open>*.\<close> was stripped: of the trimmed, lowercased token it drops three
  characters after \<^verbatim>\<open>*..\<close>, two after any other \<^verbatim>\<open>*.\<close>, one after a dot, and none
  otherwise. It is the either-or reading of the specification on every token that, trimmed
  and lowercased, does not start with \<^verbatim>\<open>*..\<close>, and the two tokens of the specification
  are normalized as it says.
\<close>

theorem normalizeDomainSuffix_correct:
  "(startsWith (toLowerCase (trim token)) ''*..'' \<longrightarrow>
      normalizeDomainSuffix token = drop 3 (toLowerCase (trim token))) \<and>
   (startsWith (toLowerCase (trim token)) ''*.'' \<and> \<not> startsWith (toLowerCase (trim token)) ''*..'' \<longrightarrow>
      normalizeDomainSuffix token = drop 2 (toLowerCase (trim token))) \<and>
   (\<not> startsWith (toLowerCase (trim token)) ''*.'' \<and> startsWith (toLowerCase (trim token)) ''.'' \<longrightarrow>
      normalizeDomainSuffix token = drop 1 (toLowerCase (trim token))) \<and>
   (\<not> startsWith (toLowerCase (trim token)) ''*.'' \<and> \<not> startsWith (toLowerCase (trim token)) ''.'' \<longrightarrow>
      normalizeDomainSuffix token = toLowerCase (trim token)) \<and>
   (\<not> startsWith (toLowerCase (trim token)) ''*..'' \<longrightarrow>
      normalizeDomainSuffix token = normalizeDomainSuffix_spec token) \<and>
   normalizeDomainSuffix ''*.Example.COM '' = ''example.com'' \<and>
   normalizeDomainSuffix ''.example.com'' = ''example.com''"
proof -
  note c = normalizeDomainSuffix_cases [of token]
  have s: "\<not> startsWith (toLowerCase (trim token)) ''*..'' \<longrightarrow>
      normalizeDomainSuffix token = normalizeDomainSuffix_spec token"
    using c by (auto simp: normalizeDomainSuffix_spec_def Let_def)
  have e1: "normalizeDomainSuffix ''*.Example.COM '' = ''example.com''" by code_simp
  have e2: "normalizeDomainSuffix ''.example.com'' = ''example.com''" by code_simp
  from c s e1 e2 show ?thesis by blast
qed

theorem normalizeDomainSuffix_correct_witness:
  "startsWith (toLowerCase (trim '' *..Ab '')) ''*..'' \<and>
   normalizeDomainSuffix '' *..Ab '' = drop 3 (toLowerCase (trim '' *..Ab '')) \<and>
   normalizeDomainSuffix '' *..Ab '' = ''ab''"
proof -
  have h: "startsWith (toLowerCase (trim '' *..Ab '')) ''*..''" by code_simp
  have d: "drop 3 (toLowerCase (trim '' *..Ab '')) = ''ab''" by code_simp
  from normalizeDomainSuffix_correct [of "'' *..Ab ''"] h
  have "normalizeDomainSuffix '' *..Ab '' = drop 3 (toLowerCase (trim '' *..Ab ''))"
    by (simp only: simp_thms)
  with h d show ?thesis by (simp only: simp_thms)
qed

lemma normalizeDomainSuffix_drop:
  "\<exists>k. normalizeDomainSuffix x = drop k (toLowerCase (trim x))"
proof -
  have "normalizeDomainSuffix x = drop 3 (toLowerCase (trim x)) \<or>
        normalizeDomainSuffix x = drop 2 (toLowerCase (trim x)) \<or>
        normalizeDomainSuffix x = drop 1 (toLowerCase (trim x)) \<or>
        normalizeDomainSuffix x = drop 0 (toLowerCase (trim x))"
    using normalizeDomainSuffix_cases [of x] by (simp only: drop_0) blast
  then show ?thesis by blast
qed

lemma normalizeDomainSuffix_lower:
  "toLowerCase (normalizeDomainSuffix x) = normalizeDomainSuffix x"
proof -
  obtain k where "normalizeDomainSuffix x = drop k (toLowerCase (trim x))"
    using normalizeDomainSuffix_drop by blast
  then show ?thesis
    by (simp add: toLowerCase_def drop_map toLowerChar_idem)
qed

lemma normalizeDomainSuffix_last:
  assumes "normalizeDomainSuffix x \<noteq> []"
  shows "\<not> isWhiteSpace (last (normalizeDomainSuffix x))"
proof -
  obtain k where k: "normalizeDomainSuffix x = drop k (toLowerCase (trim x))"
    using normalizeDomainSuffix_drop by blast
  with assms have lt: "k < length (trim x)" by (simp add: toLowerCase_def)
  then have ne: "trim x \<noteq> []" by auto
  from lt have "last (normalizeDomainSuffix x) = last (toLowerCase (trim x))"
    unfolding k by (simp add: toLowerCase_def last_drop)
  also from ne have "\<dots> = toLowerChar (last (trim x))"
    by (simp add: toLowerCase_def last_map)
  finally show ?thesis
    using trim_last [OF ne] by (simp add: isWhiteSpace_toLowerChar)
qed

lemma trim_same_length: "length (trim s) = length s \<Longrightarrow> trim s = s"
proof -
  assume l: "length (trim s) = length s"
  have a: "length (dropWhile isWhiteSpace (rev (dropWhile isWhiteSpace s))) \<le> length (dropWhile isWhiteSpace s)"
    by (metis length_dropWhile_le length_rev)
  have b: "length (dropWhile isWhiteSpace s) \<le> length s"
    by (rule length_dropWhile_le)
  from l a b have 1: "length (dropWhile isWhiteSpace s) = length s"
    by (simp add: trim_def)
  have e: "dropWhile P xs = xs" if "length (dropWhile P xs) = length xs" for P and xs :: string
  proof -
    have "length (takeWhile P xs) + length (dropWhile P xs) = length xs"
      by (metis length_append takeWhile_dropWhile_id)
    with that have "takeWhile P xs = []" by simp
    then show ?thesis by (metis append_Nil takeWhile_dropWhile_id)
  qed
  from 1 have 2: "dropWhile isWhiteSpace s = s" by (rule e)
  with l have "length (dropWhile isWhiteSpace (rev s)) = length (rev s)"
    by (simp add: trim_def)
  then have "dropWhile isWhiteSpace (rev s) = rev s" by (rule e)
  with 2 show ?thesis by (simp add: trim_def)
qed

text \<open>
  Claim C9, as stated, says that normalizing twice is normalizing once. One leading dot is
  stripped at a time, so a token with two leading dots needs two rounds.
\<close>

theorem normalizeDomainSuffix_not_idempotent:
  "normalizeDomainSuffix ''..a'' = ''.a'' \<and>
   normalizeDomainSuffix (normalizeDomainSuffix ''..a'') = ''a''"
  by code_simp

text \<open>
  Claim C9, amended. Normalizing the result of \<^verbatim>\<open>normalizeDomainSuffix\<close> again changes
  nothing exactly when that result starts with neither a dot, nor \<^verbatim>\<open>*.\<close>, nor a
  whitespace character.
\<close>

theorem normalizeDomainSuffix_idempotent_iff:
  "normalizeDomainSuffix (normalizeDomainSuffix x) = normalizeDomainSuffix x \<longleftrightarrow>
     \<not> startsWith (normalizeDomainSuffix x) ''.'' \<and>
     \<not> startsWith (normalizeDomainSuffix x) ''*.'' \<and>
     (normalizeDomainSuffix x = [] \<or> \<not> isWhiteSpace (hd (normalizeDomainSuffix x)))"
proof -
  define y where "y = normalizeDomainSuffix x"
  define v where "v = toLowerCase (trim y)"
  have low: "toLowerCase y = y"
    unfolding y_def by (rule normalizeDomainSuffix_lower)
  have lst: "y = [] \<or> \<not> isWhiteSpace (last y)"
    unfolding y_def using normalizeDomainSuffix_last by blast
  have "\<forall>c\<in>set y. toLowerChar c = c"
    using low by (simp add: toLowerCase_def map_eq_conv [where g = "\<lambda>c. c", simplified])
  then have "\<forall>c\<in>set (trim y). toLowerChar c = c"
    using set_trim by blast
  then have v: "v = trim y"
    unfolding v_def by (rule toLowerCase_fixed)
  note c = normalizeDomainSuffix_cases [of y, folded v_def]
  have len: "length v \<le> length y"
    unfolding v by (rule length_trim_le)
  have sw: "\<And>p. startsWith v p \<Longrightarrow> length p \<le> length v"
    unfolding startsWith_iff by auto
  show ?thesis
    unfolding y_def [symmetric]
  proof
    assume idem: "normalizeDomainSuffix y = y"
    have 1: "\<not> startsWith v ''*..''"
    proof
      assume a: "startsWith v ''*..''"
      with c have "normalizeDomainSuffix y = drop 3 v" by blast
      with idem have "length y = length v - 3" by (metis length_drop)
      with sw [OF a] len show False by simp
    qed
    have 2: "\<not> startsWith v ''*.''"
    proof
      assume a: "startsWith v ''*.''"
      with c 1 have "normalizeDomainSuffix y = drop 2 v" by blast
      with idem have "length y = length v - 2" by (metis length_drop)
      with sw [OF a] len show False by simp
    qed
    have 3: "\<not> startsWith v ''.''"
    proof
      assume a: "startsWith v ''.''"
      with c 2 have "normalizeDomainSuffix y = drop 1 v" by blast
      with idem have "length y = length v - 1" by (metis length_drop)
      with sw [OF a] len show False by simp
    qed
    from c 2 3 have "normalizeDomainSuffix y = v" by blast
    with idem v have t: "trim y = y" by simp
    with 2 3 v have "\<not> startsWith y ''.''" "\<not> startsWith y ''*.''" by simp_all
    moreover from t have "y = [] \<or> \<not> isWhiteSpace (hd y)"
      using trim_eq_iff [of y] by blast
    ultimately show "\<not> startsWith y ''.'' \<and> \<not> startsWith y ''*.'' \<and> (y = [] \<or> \<not> isWhiteSpace (hd y))"
      by blast
  next
    assume r: "\<not> startsWith y ''.'' \<and> \<not> startsWith y ''*.'' \<and> (y = [] \<or> \<not> isWhiteSpace (hd y))"
    with lst have "trim y = y" using trim_eq_iff [of y] by blast
    with v have "v = y" by simp
    with c r show "normalizeDomainSuffix y = y" by simp
  qed
qed

theorem normalizeDomainSuffix_idempotent_iff_witness:
  "\<not> startsWith (normalizeDomainSuffix ''*.Example.COM '') ''.'' \<and>
   \<not> startsWith (normalizeDomainSuffix ''*.Example.COM '') ''*.'' \<and>
   \<not> isWhiteSpace (hd (normalizeDomainSuffix ''*.Example.COM '')) \<and>
   normalizeDomainSuffix (normalizeDomainSuffix ''*.Example.COM '') =
     normalizeDomainSuffix ''*.Example.COM ''"
proof -
  have h1: "\<not> startsWith (normalizeDomainSuffix ''*.Example.COM '') ''.''" by code_simp
  have h2: "\<not> startsWith (normalizeDomainSuffix ''*.Example.COM '') ''*.''" by code_simp
  have h3: "\<not> isWhiteSpace (hd (normalizeDomainSuffix ''*.Example.COM ''))" by code_simp
  from normalizeDomainSuffix_idempotent_iff [of "''*.Example.COM ''"] h1 h2 h3
  have "normalizeDomainSuffix (normalizeDomainSuffix ''*.Example.COM '') =
     normalizeDomainSuffix ''*.Example.COM ''" by blast
  with h1 h2 h3 show ?thesis by blast
qed

section \<open>The disambiguator\<close>

lemma isIpOrCidr_no_slash:
  assumes "CHR ''/'' \<notin> set (trim token)"
  shows "isIpOrCidr token = (trim token \<noteq> [] \<and> (isIPv4 (trim token) \<or> isIPv6 (trim token)))"
proof -
  have "split (trim token) (CHR ''/'') = [trim token]"
    using assms by (rule split_no_sep)
  then show ?thesis
    by (simp add: isIpOrCidr_def splitLimit_def Let_def)
qed

lemma isIpOrCidr_slash:
  assumes "trim token = a @ CHR ''/'' # r" and "CHR ''/'' \<notin> set a"
  shows "isIpOrCidr token =
     (a \<noteq> [] \<and> (hd (split r (CHR ''/'')) = [] \<or> allDigits (hd (split r (CHR ''/'')))) \<and>
      (isIPv4 a \<and> Number (hd (split r (CHR ''/''))) \<le> 32 \<or>
       \<not> isIPv4 a \<and> isIPv6 a \<and> Number (hd (split r (CHR ''/''))) \<le> 128))"
proof -
  obtain p ps where ps: "split r (CHR ''/'') = p # ps"
    using split_not_Nil [of r "CHR ''/''"] by (cases "split r (CHR ''/'')") auto
  have "split (trim token) (CHR ''/'') = a # p # ps"
    unfolding assms(1) using assms(2) ps by (simp add: split_sep)
  then show ?thesis
    unfolding ps by (auto simp add: isIpOrCidr_def splitLimit_def Let_def)
qed

lemma isIpOrCidr_spec_no_slash:
  assumes "CHR ''/'' \<notin> set v"
  shows "isIpOrCidr_spec v = (v \<noteq> [] \<and> (isIPv4 v \<or> isIPv6 v))"
proof -
  have t: "takeWhile (\<lambda>c. c \<noteq> CHR ''/'') v = v" using assms by auto
  have d: "dropWhile (\<lambda>c. c \<noteq> CHR ''/'') v = []" using assms by auto
  show ?thesis
    unfolding isIpOrCidr_spec_def t d by (simp add: classifyIp_def)
qed

lemma isIpOrCidr_spec_slash:
  assumes "CHR ''/'' \<notin> set a"
  shows "isIpOrCidr_spec (a @ CHR ''/'' # r) =
     (a \<noteq> [] \<and> (r = [] \<or> (\<forall>c\<in>set r. isDigit c)) \<and>
      (isIPv4 a \<and> Number r \<le> 32 \<or> \<not> isIPv4 a \<and> isIPv6 a \<and> Number r \<le> 128))"
proof -
  have t: "takeWhile (\<lambda>c. c \<noteq> CHR ''/'') (a @ CHR ''/'' # r) = a"
    using assms by (induction a) auto
  have d: "dropWhile (\<lambda>c. c \<noteq> CHR ''/'') (a @ CHR ''/'' # r) = CHR ''/'' # r"
    using assms by (induction a) auto
  show ?thesis
    unfolding isIpOrCidr_spec_def t d by (auto simp add: classifyIp_def)
qed

text \<open>
  Claim C1, as stated, cuts the token as given at its first slash and takes all that follows
  for the prefix part. The program trims the token first, so a token with a blank in front
  is accepted where the stated rule rejects it; and its split keeps only what stands between
  the first and the second slash, so a token with a second slash is accepted where the
  stated rule rejects it.
\<close>

theorem isIpOrCidr_counterexample:
  "isIpOrCidr '' 10.0.0.0/8'' \<and> \<not> isIpOrCidr_spec '' 10.0.0.0/8'' \<and>
   isIpOrCidr ''10.0.0.0/8/9'' \<and> \<not> isIpOrCidr_spec ''10.0.0.0/8/9''"
  by code_simp

text \<open>
  Claim C1, amended. \<^verbatim>\<open>isIpOrCidr\<close> trims its token. When the trimmed token has one slash
  at most, the result is that of the stated rule on the trimmed token: false when the
  address part is empty or the prefix part is there, not empty and not all digits;
  otherwise true exactly when the address part is IPv4 and the prefix is absent or at most
  32, or the address part is IPv6 and the prefix is absent or at most 128, the empty prefix
  counting as 0. The four tokens of the specification are decided as it says. Nothing is
  said here of a trimmed token with two slashes or more.
\<close>

theorem isIpOrCidr_correct:
  "(length (filter (\<lambda>c. c = CHR ''/'') (trim token)) \<le> 1 \<longrightarrow>
      isIpOrCidr token = isIpOrCidr_spec (trim token)) \<and>
   isIpOrCidr ''10.0.0.0/8'' \<and> \<not> isIpOrCidr ''10.0.0.0/33'' \<and>
   \<not> isIpOrCidr ''example.com'' \<and> \<not> isIpOrCidr ''::1/129''"
proof -
  have g: "isIpOrCidr token = isIpOrCidr_spec (trim token)"
    if one: "length (filter (\<lambda>c. c = CHR ''/'') (trim token)) \<le> 1"
  proof (rule split_cases [where s = "trim token" and sep = "CHR ''/''"])
    assume "CHR ''/'' \<notin> set (trim token)"
    then show ?thesis
      by (simp add: isIpOrCidr_no_slash isIpOrCidr_spec_no_slash)
  next
    fix a r
    assume v: "trim token = a @ CHR ''/'' # r" and a: "CHR ''/'' \<notin> set a"
    from one have "filter (\<lambda>c. c = CHR ''/'') r = []"
      unfolding v by simp
    then have r: "CHR ''/'' \<notin> set r"
      by (auto simp: filter_empty_conv)
    then have "split r (CHR ''/'') = [r]" by (rule split_no_sep)
    then show ?thesis
      unfolding isIpOrCidr_slash [OF v a] v isIpOrCidr_spec_slash [OF a]
      by (auto simp: allDigits_def list_all_iff)
  qed
  have e1: "isIpOrCidr ''10.0.0.0/8''" by code_simp
  have e2: "\<not> isIpOrCidr ''10.0.0.0/33''" by code_simp
  have e3: "\<not> isIpOrCidr ''example.com''" by code_simp
  have e4: "\<not> isIpOrCidr ''::1/129''" by code_simp
  from g e1 e2 e3 e4 show ?thesis by blast
qed

theorem isIpOrCidr_correct_witness:
  "length (filter (\<lambda>c. c = CHR ''/'') (trim '' 10.0.0.0/8 '')) \<le> 1 \<and>
   isIpOrCidr '' 10.0.0.0/8 '' \<and> isIpOrCidr_spec (trim '' 10.0.0.0/8 '')"
proof -
  have h: "length (filter (\<lambda>c. c = CHR ''/'') (trim '' 10.0.0.0/8 '')) \<le> 1" by code_simp
  have s: "isIpOrCidr_spec (trim '' 10.0.0.0/8 '')" by code_simp
  from isIpOrCidr_correct [of "'' 10.0.0.0/8 ''"] h s
  have "isIpOrCidr '' 10.0.0.0/8 ''" by blast
  with h s show ?thesis by blast
qed

lemma isDigit_plain: "isDigit c \<Longrightarrow> \<not> isWhiteSpace c \<and> c \<noteq> CHR ''/''"
  unfolding isDigit_def isWhiteSpace_def by (simp, elim disjE) simp_all

lemma isHexDigit_plain: "isHexDigit c \<Longrightarrow> \<not> isWhiteSpace c \<and> c \<noteq> CHR ''/''"
  unfolding isHexDigit_def isWhiteSpace_def by (simp, elim disjE) simp_all

lemma dot_colon_plain:
  "\<not> isWhiteSpace (CHR ''.'')" "\<not> isWhiteSpace (CHR '':'')" "\<not> isWhiteSpace (CHR ''/'')"
  by (simp_all add: isWhiteSpace_def)

lemma octet_plain: "octet p \<Longrightarrow> c \<in> set p \<Longrightarrow> \<not> isWhiteSpace c \<and> c \<noteq> CHR ''/''"
  unfolding octet_def using isDigit_plain by blast

lemma isIPv4_plain:
  assumes "isIPv4 a" and "c \<in> set a"
  shows "\<not> isWhiteSpace c \<and> c \<noteq> CHR ''/''"
proof -
  from assms(1) obtain w x y z where
    a: "a = w @ ''.'' @ x @ ''.'' @ y @ ''.'' @ z" and o: "octet w" "octet x" "octet y" "octet z"
    unfolding isIPv4_iff by blast
  from assms(2) have "c \<in> set w \<or> c \<in> set x \<or> c \<in> set y \<or> c \<in> set z \<or> c = CHR ''.''"
    unfolding a by auto
  with o show ?thesis
    using octet_plain dot_colon_plain(1) by (elim disjE) auto
qed

lemma isIPv6_plain:
  assumes "isIPv6 a" and "c \<in> set a"
  shows "\<not> isWhiteSpace c \<and> c \<noteq> CHR ''/''"
proof -
  from assms have "isHexDigit c \<or> c = CHR '':''"
    unfolding isIPv6_iff by blast
  then show ?thesis
    using isHexDigit_plain dot_colon_plain(2) by (elim disjE) auto
qed

lemma isIPv4_not_Nil: "isIPv4 a \<Longrightarrow> a \<noteq> []"
  unfolding isIPv4_iff by auto

lemma isIPv6_not_Nil: "isIPv6 a \<Longrightarrow> a \<noteq> []"
  unfolding isIPv6_iff by auto

lemma address_plain:
  assumes "classifyIp a \<noteq> NotIp"
  shows "a \<noteq> []" and "\<forall>c\<in>set a. \<not> isWhiteSpace c \<and> c \<noteq> CHR ''/''"
proof -
  from assms have "isIPv4 a \<or> isIPv6 a"
    by (simp add: classifyIp_def split: if_splits)
  then show "a \<noteq> []" "\<forall>c\<in>set a. \<not> isWhiteSpace c \<and> c \<noteq> CHR ''/''"
    using isIPv4_not_Nil isIPv6_not_Nil isIPv4_plain isIPv6_plain by blast+
qed

lemma isIpOrCidr_trim: "isIpOrCidr (trim v) = isIpOrCidr v"
  by (simp add: isIpOrCidr_def trim_idem)

lemma normalizeCidr_trim: "normalizeCidr (trim v) = normalizeCidr v"
  by (simp add: normalizeCidr_def trim_idem)

lemma normalizeDomainSuffix_trim: "normalizeDomainSuffix (trim v) = normalizeDomainSuffix v"
  by (simp add: normalizeDomainSuffix_def trim_idem)

lemma addMixedEntry_route: "addMixedEntry line data = route (resolveMixedEntry line) data"
  by (simp add: addMixedEntry_def resolveMixedEntry_def Let_def
      isIpOrCidr_trim normalizeCidr_trim normalizeDomainSuffix_trim)

text \<open>
  Claim C10. Let the address part be classified IPv4 or IPv6 and be followed by one slash
  and nothing more. Then \<^verbatim>\<open>isIpOrCidr\<close> accepts the token, \<^verbatim>\<open>normalizeCidr\<close> returns it
  as it is, and both a line of a nested source and an entry of a mixed list of this shape
  are appended to the subnets with the slash at the end.
\<close>

theorem empty_prefix_accepted:
  assumes "classifyIp a \<noteq> NotIp"
  shows "isIpOrCidr (a @ ''/'') \<and>
         normalizeCidr (a @ ''/'') = a @ ''/'' \<and>
         addMixedEntry (a @ ''/'') data = data\<lparr>subnets := subnets data @ [a @ ''/'']\<rparr> \<and>
         processEntry env (a @ ''/'') data = Inr (data\<lparr>subnets := subnets data @ [a @ ''/'']\<rparr>)"
proof -
  note p = address_plain [OF assms]
  from p(2) have "\<forall>c\<in>set (a @ ''/''). \<not> isWhiteSpace c"
    by (simp add: dot_colon_plain)
  then have t: "trim (a @ ''/'') = a @ ''/''" by (rule trim_no_ws)
  from p(2) have ns: "CHR ''/'' \<notin> set a" by blast
  from assms have c: "isIPv4 a \<or> isIPv6 a"
    by (simp add: classifyIp_def split: if_splits)
  have s: "split [] (CHR ''/'') = [[]]" by (simp add: split_no_sep)
  have 1: "isIpOrCidr (a @ ''/'')"
    using isIpOrCidr_slash [of "a @ ''/''" a "[]"] t ns p(1) c
    by (auto simp: s Number_def)
  have 2: "normalizeCidr (a @ ''/'') = a @ ''/''"
    by (simp add: normalizeCidr_def t includes_str_def)
  from p(1) have ne: "a @ ''/'' \<noteq> []" by simp
  have 3: "addMixedEntry (a @ ''/'') data = data\<lparr>subnets := subnets data @ [a @ ''/'']\<rparr>"
    using 1 2 ne by (simp add: addMixedEntry_def t del: append_is_Nil_conv)
  have 4: "processEntry env (a @ ''/'') data = Inr (data\<lparr>subnets := subnets data @ [a @ ''/'']\<rparr>)"
    using 1 2 ne by (simp add: processEntry_def t del: append_is_Nil_conv)
  from 1 2 3 4 show ?thesis by blast
qed

theorem empty_prefix_accepted_witness:
  "classifyIp ''1.2.3.4'' \<noteq> NotIp \<and> isIpOrCidr ''1.2.3.4/'' \<and>
   normalizeCidr ''1.2.3.4/'' = ''1.2.3.4/'' \<and>
   addMixedEntry ''1.2.3.4/'' \<lparr>domains = [], subnets = []\<rparr> =
     \<lparr>domains = [], subnets = [''1.2.3.4/'']\<rparr>"
proof -
  have h: "classifyIp ''1.2.3.4'' \<noteq> NotIp" by code_simp
  from empty_prefix_accepted [OF h, of "\<lparr>domains = [], subnets = []\<rparr>"] h
  show ?thesis by simp
qed

section \<open>Entries of a mixed list\<close>

lemma processEntry_routing:
  "processEntry env entry data =
     (if trim entry = [] then Inr data
      else if isIpOrCidr entry
      then Inr (data\<lparr>subnets := subnets data @ [normalizeCidr entry]\<rparr>)
      else if startsWith (trim entry) ''http://'' \<or> startsWith (trim entry) ''https://'' \<or>
              CHR ''/'' \<in> set (trim entry)
      then (case readLines env (trim entry) of
              Inl e \<Rightarrow> Inl e
            | Inr lines \<Rightarrow> Inr (foldl (\<lambda>d line. route (resolveMixedEntry line) d) data lines))
      else Inr (data\<lparr>domains := domains data @ [normalizeDomainSuffix entry]\<rparr>)) \<and>
   processEntry env ''10.0.0.0/24'' data = Inr (data\<lparr>subnets := subnets data @ [''10.0.0.0/24'']\<rparr>) \<and>
   processEntry env ''sub.example.com'' data =
     Inr (data\<lparr>domains := domains data @ [''sub.example.com'']\<rparr>) \<and>
   processEntry env ''./extra-list.txt'' data =
     (case readLines env ''./extra-list.txt'' of
        Inl e \<Rightarrow> Inl e
      | Inr lines \<Rightarrow> Inr (foldl (\<lambda>d line. route (resolveMixedEntry line) d) data lines))"
proof -
  have g: "processEntry env entry data =
     (if trim entry = [] then Inr data
      else if isIpOrCidr entry
      then Inr (data\<lparr>subnets := subnets data @ [normalizeCidr entry]\<rparr>)
      else if startsWith (trim entry) ''http://'' \<or> startsWith (trim entry) ''https://'' \<or>
              CHR ''/'' \<in> set (trim entry)
      then (case readLines env (trim entry) of
              Inl e \<Rightarrow> Inl e
            | Inr lines \<Rightarrow> Inr (foldl (\<lambda>d line. route (resolveMixedEntry line) d) data lines))
      else Inr (data\<lparr>domains := domains data @ [normalizeDomainSuffix entry]\<rparr>))"
    for entry
    unfolding processEntry_def Let_def includes_str_def isIpOrCidr_trim normalizeCidr_trim
      normalizeDomainSuffix_trim addMixedEntry_route
    by (rule refl)
  have a1: "trim ''10.0.0.0/24'' \<noteq> []" by code_simp
  have a2: "isIpOrCidr ''10.0.0.0/24''" by code_simp
  have a3: "normalizeCidr ''10.0.0.0/24'' = ''10.0.0.0/24''" by code_simp
  have e1: "processEntry env ''10.0.0.0/24'' data = Inr (data\<lparr>subnets := subnets data @ [''10.0.0.0/24'']\<rparr>)"
    unfolding g [of "''10.0.0.0/24''"] using a1 a2 by (simp only: a3 if_True if_False)
  have b1: "trim ''sub.example.com'' \<noteq> []" by code_simp
  have b2: "\<not> isIpOrCidr ''sub.example.com''" by code_simp
  have b3: "\<not> (startsWith (trim ''sub.example.com'') ''http://'' \<or>
                startsWith (trim ''sub.example.com'') ''https://'' \<or>
                CHR ''/'' \<in> set (trim ''sub.example.com''))" by code_simp
  have b4: "normalizeDomainSuffix ''sub.example.com'' = ''sub.example.com''" by code_simp
  have e2: "processEntry env ''sub.example.com'' data =
     Inr (data\<lparr>domains := domains data @ [''sub.example.com'']\<rparr>)"
    unfolding g [of "''sub.example.com''"] using b1 b2 b3 by (simp only: b4 if_True if_False)
  have c1: "trim ''./extra-list.txt'' = ''./extra-list.txt''" by code_simp
  have c2: "\<not> isIpOrCidr ''./extra-list.txt''" by code_simp
  have c3: "CHR ''/'' \<in> set ''./extra-list.txt''" by simp
  have c4: "''./extra-list.txt'' \<noteq> []" by simp
  have e3: "processEntry env ''./extra-list.txt'' data =
     (case readLines env ''./extra-list.txt'' of
        Inl e \<Rightarrow> Inl e
      | Inr lines \<Rightarrow> Inr (foldl (\<lambda>d line. route (resolveMixedEntry line) d) data lines))"
    unfolding g [of "''./extra-list.txt''"] c1 using c2 c3 c4 by (simp only: if_True if_False simp_thms)
  show ?thesis by (intro conjI g e1 e2 e3)
qed

lemma foldl_Inl:
  "foldl (\<lambda>acc entry. case acc of Inl e \<Rightarrow> Inl e | Inr d \<Rightarrow> f entry d) (Inl e) entries = Inl e"
  by (induction entries) simp_all

lemma processList_foldl:
  "processList env entries data =
     foldl (\<lambda>acc entry. case acc of Inl e \<Rightarrow> Inl e | Inr d \<Rightarrow> processEntry env entry d)
       (Inr data) entries"
proof (induction entries arbitrary: data)
  case Nil
  then show ?case by simp
next
  case (Cons entry rest)
  show ?case
  proof (cases "processEntry env entry data")
    case (Inl e)
    then show ?thesis by (simp add: foldl_Inl)
  next
    case (Inr d)
    then show ?thesis by (simp add: Cons.IH)
  qed
qed

lemma processList_guard:
  "(if length entries > 0 then processList env entries data else Inr data) =
     processList env entries data"
  by (cases entries) simp_all

lemma processRule_list_only:
  assumes "rule_domains rule = None" and "rule_subnets rule = None"
  shows "processRule env rule outbounds =
     (case processList env (case rule_list rule of None \<Rightarrow> [] | Some entries \<Rightarrow> entries)
             (case map_of outbounds (rule_outbound rule) of
                None \<Rightarrow> \<lparr>domains = [], subnets = []\<rparr>
              | Some d \<Rightarrow> d) of
        Inl e \<Rightarrow> Inl e
      | Inr d \<Rightarrow> Inr (AList.update (rule_outbound rule) d outbounds))"
  using assms
  by (cases "rule_list rule"; cases "map_of outbounds (rule_outbound rule)")
     (simp_all add: processRule_def Let_def processList_guard update_conv' split: sum.splits)

lemma processRule_split:
  "processRule env rule outbounds =
     (case processRule env (rule\<lparr>rule_list := None\<rparr>) outbounds of
        Inl e \<Rightarrow> Inl e
      | Inr outbounds' \<Rightarrow>
          processRule env (rule\<lparr>rule_domains := None, rule_subnets := None\<rparr>) outbounds')"
proof -
  define key where "key = rule_outbound rule"
  define obs1 where "obs1 = (if map_of outbounds key = None
      then AList.update key \<lparr>domains = [], subnets = []\<rparr> outbounds else outbounds)"
  define d0 where "d0 = (case map_of obs1 key of Some d \<Rightarrow> d | None \<Rightarrow> \<lparr>domains = [], subnets = []\<rparr>)"
  define S where "S = (case (case rule_domains rule of
                 None \<Rightarrow> Inr d0
               | Some src \<Rightarrow>
                   if src = [] then Inr d0
                   else (case readLines env src of
                           Inl e \<Rightarrow> Inl e
                         | Inr ls \<Rightarrow> Inr (d0\<lparr>domains := domains d0 @ map normalizeDomainSuffix ls\<rparr>))) of
           Inl e \<Rightarrow> Inl e
         | Inr data \<Rightarrow>
        (case rule_subnets rule of
                 None \<Rightarrow> Inr data
               | Some src \<Rightarrow>
                   if src = [] then Inr data
                   else (case readLines env src of
                           Inl e \<Rightarrow> Inl e
                         | Inr ls \<Rightarrow> Inr (data\<lparr>subnets := subnets data @ map normalizeCidr ls\<rparr>))))"
  define es where "es = (case rule_list rule of None \<Rightarrow> [] | Some entries \<Rightarrow> entries)"
  have whole: "processRule env rule outbounds =
      (case S of Inl e \<Rightarrow> Inl e
       | Inr d2 \<Rightarrow> (case processList env es d2 of Inl e \<Rightarrow> Inl e
                     | Inr d3 \<Rightarrow> Inr (AList.update key d3 obs1)))"
    unfolding processRule_def Let_def key_def [symmetric] obs1_def [symmetric] d0_def [symmetric]
      S_def es_def
    by (simp add: processList_guard split: sum.splits option.splits)
  have first: "processRule env (rule\<lparr>rule_list := None\<rparr>) outbounds =
      (case S of Inl e \<Rightarrow> Inl e | Inr d2 \<Rightarrow> Inr (AList.update key d2 obs1))"
    unfolding processRule_def Let_def S_def d0_def obs1_def key_def
    by (simp split: sum.splits option.splits)
  have second: "processRule env (rule\<lparr>rule_domains := None, rule_subnets := None\<rparr>)
        (AList.update key d2 obs1) =
      (case processList env es d2 of Inl e \<Rightarrow> Inl e
       | Inr d3 \<Rightarrow> Inr (AList.update key d3 obs1))" for d2
    by (simp add: processRule_list_only key_def es_def update_conv' split: sum.splits)
  show ?thesis
    unfolding whole first by (simp add: second split: sum.splits)
qed

text \<open>
  Claim C5. The loop over a mixed list takes the entries in their order, each on the
  accumulator the entries before it left, and stops at the first load that fails. An entry
  is trimmed, and the first case that applies decides: a blank entry changes nothing; an
  entry that \<^verbatim>\<open>isIpOrCidr\<close> accepts is appended to the subnets as its \<^verbatim>\<open>normalizeCidr\<close>;
  an entry that starts with \<^verbatim>\<open>http://\<close> or \<^verbatim>\<open>https://\<close> or has a slash is loaded as a
  source, and each line of it is routed by the Mixed-Entry Resolver; any other entry is
  appended to the domains as its \<^verbatim>\<open>normalizeDomainSuffix\<close>. A declaration is its two
  source channels followed by this loop, run on the accumulator of its outbound, and the
  result is stored under that outbound. The three entries of the specification go where
  it says, also in a run of \<^verbatim>\<open>main\<close>.
\<close>

theorem mixed_list_routing:
  "processEntry env entry data =
     (if trim entry = [] then Inr data
      else if isIpOrCidr entry
      then Inr (data\<lparr>subnets := subnets data @ [normalizeCidr entry]\<rparr>)
      else if startsWith (trim entry) ''http://'' \<or> startsWith (trim entry) ''https://'' \<or>
              CHR ''/'' \<in> set (trim entry)
      then (case readLines env (trim entry) of
              Inl e \<Rightarrow> Inl e
            | Inr lines \<Rightarrow> Inr (foldl (\<lambda>d line. route (resolveMixedEntry line) d) data lines))
      else Inr (data\<lparr>domains := domains data @ [normalizeDomainSuffix entry]\<rparr>)) \<and>
   processList env entries data =
     foldl (\<lambda>acc entry. case acc of Inl e \<Rightarrow> Inl e | Inr d \<Rightarrow> processEntry env entry d)
       (Inr data) entries \<and>
   processRule env rule outbounds =
     (case processRule env (rule\<lparr>rule_list := None\<rparr>) outbounds of
        Inl e \<Rightarrow> Inl e
      | Inr outbounds' \<Rightarrow>
          processRule env (rule\<lparr>rule_domains := None, rule_subnets := None\<rparr>) outbounds') \<and>
   (rule_domains rule = None \<and> rule_subnets rule = None \<longrightarrow>
      processRule env rule outbounds =
        (case processList env (case rule_list rule of None \<Rightarrow> [] | Some entries \<Rightarrow> entries)
                (case map_of outbounds (rule_outbound rule) of
                   None \<Rightarrow> \<lparr>domains = [], subnets = []\<rparr>
                 | Some d \<Rightarrow> d) of
           Inl e \<Rightarrow> Inl e
         | Inr d \<Rightarrow> Inr (AList.update (rule_outbound rule) d outbounds))) \<and>
   processEntry env ''10.0.0.0/24'' data = Inr (data\<lparr>subnets := subnets data @ [''10.0.0.0/24'']\<rparr>) \<and>
   processEntry env ''sub.example.com'' data =
     Inr (data\<lparr>domains := domains data @ [''sub.example.com'']\<rparr>) \<and>
   processEntry env ''./extra-list.txt'' data =
     (case readLines env ''./extra-list.txt'' of
        Inl e \<Rightarrow> Inl e
      | Inr lines \<Rightarrow> Inr (foldl (\<lambda>d line. route (resolveMixedEntry line) d) data lines)) \<and>
   main env \<lparr>config_rules =
       [\<lparr>rule_domains = None, rule_subnets = None,
         rule_list = Some [''10.0.0.0/24'', ''  '', ''sub.example.com''],
         rule_outbound = ''direct''\<rparr>]\<rparr> =
     Inr [generateSrs env ''direct''
            \<lparr>domains = [''sub.example.com''], subnets = [''10.0.0.0/24'']\<rparr>]"
proof -
  have blank: "trim ''  '' = []" by code_simp
  have e0: "processEntry env ''  '' d = Inr d" for d
    using processEntry_routing [of env "''  ''" d, THEN conjunct1] by (simp add: blank)
  have e1: "processEntry env ''10.0.0.0/24'' d = Inr (d\<lparr>subnets := subnets d @ [''10.0.0.0/24'']\<rparr>)" for d
    using processEntry_routing [of env _ d] by blast
  have e2: "processEntry env ''sub.example.com'' d =
     Inr (d\<lparr>domains := domains d @ [''sub.example.com'']\<rparr>)" for d
    using processEntry_routing [of env _ d] by blast
  have l: "processList env [''10.0.0.0/24'', ''  '', ''sub.example.com''] \<lparr>domains = [], subnets = []\<rparr> =
      Inr \<lparr>domains = [''sub.example.com''], subnets = [''10.0.0.0/24'']\<rparr>"
    by (simp add: e0 e1 e2)
  have r: "processRule env \<lparr>rule_domains = None, rule_subnets = None,
         rule_list = Some [''10.0.0.0/24'', ''  '', ''sub.example.com''],
         rule_outbound = ''direct''\<rparr> [] =
      Inr [(''direct'', \<lparr>domains = [''sub.example.com''], subnets = [''10.0.0.0/24'']\<rparr>)]"
    using processRule_list_only [of "\<lparr>rule_domains = None, rule_subnets = None,
         rule_list = Some [''10.0.0.0/24'', ''  '', ''sub.example.com''],
         rule_outbound = ''direct''\<rparr>" env "[]"]
    by (simp add: l del: processList.simps)
  have d1: "newSet [''sub.example.com''] = [''sub.example.com'']" by (simp add: newSet_def)
  have d2: "newSet [''10.0.0.0/24''] = [''10.0.0.0/24'']" by (simp add: newSet_def)
  have m: "main env \<lparr>config_rules =
       [\<lparr>rule_domains = None, rule_subnets = None,
         rule_list = Some [''10.0.0.0/24'', ''  '', ''sub.example.com''],
         rule_outbound = ''direct''\<rparr>]\<rparr> =
     Inr [generateSrs env ''direct''
            \<lparr>domains = [''sub.example.com''], subnets = [''10.0.0.0/24'']\<rparr>]"
    by (simp add: main_def r deduplicate_def d1 d2)
  note c1 = processEntry_routing [of env entry data, THEN conjunct1]
  note c2 = processList_foldl [of env entries data]
  note c3 = processRule_split [of env rule outbounds]
  have c4: "rule_domains rule = None \<and> rule_subnets rule = None \<longrightarrow>
      processRule env rule outbounds =
        (case processList env (case rule_list rule of None \<Rightarrow> [] | Some entries \<Rightarrow> entries)
                (case map_of outbounds (rule_outbound rule) of
                   None \<Rightarrow> \<lparr>domains = [], subnets = []\<rparr>
                 | Some d \<Rightarrow> d) of
           Inl e \<Rightarrow> Inl e
         | Inr d \<Rightarrow> Inr (AList.update (rule_outbound rule) d outbounds))"
    using processRule_list_only [of rule env outbounds] by blast
  note x1 = e1 [of data]
  note x2 = e2 [of data]
  note x3 = processEntry_routing [of env entry data, THEN conjunct2, THEN conjunct2, THEN conjunct2]
  show ?thesis
    by (intro conjI c1 c2 c3 c4 x1 x2 x3 m)
qed

theorem mixed_list_routing_witness:
  "trim ''./extra-list.txt'' \<noteq> [] \<and> \<not> isIpOrCidr ''./extra-list.txt'' \<and>
   CHR ''/'' \<in> set (trim ''./extra-list.txt'') \<and>
   readLines example_env (trim ''./extra-list.txt'') = Inr [''8.8.8.8'', ''*.Foo.org'', ''8.8.8.8''] \<and>
   processEntry example_env ''./extra-list.txt'' \<lparr>domains = [], subnets = []\<rparr> =
     Inr \<lparr>domains = [''foo.org''], subnets = [''8.8.8.8/32'', ''8.8.8.8/32'']\<rparr> \<and>
   processList example_env [''./extra-list.txt'', ''10.0.0.0/24'', ''Sub.Example.com '']
       \<lparr>domains = [], subnets = []\<rparr> =
     Inr \<lparr>domains = [''foo.org'', ''sub.example.com''],
          subnets = [''8.8.8.8/32'', ''8.8.8.8/32'', ''10.0.0.0/24'']\<rparr> \<and>
   processRule example_env
       \<lparr>rule_domains = None, rule_subnets = None,
        rule_list = Some [''./extra-list.txt'', ''10.0.0.0/24'', ''Sub.Example.com ''],
        rule_outbound = ''direct''\<rparr> [] =
     Inr [(''direct'', \<lparr>domains = [''foo.org'', ''sub.example.com''],
                        subnets = [''8.8.8.8/32'', ''8.8.8.8/32'', ''10.0.0.0/24'']\<rparr>)]"
proof -
  have h1: "trim ''./extra-list.txt'' \<noteq> []" by code_simp
  have h2: "\<not> isIpOrCidr ''./extra-list.txt''" by code_simp
  have h3: "CHR ''/'' \<in> set (trim ''./extra-list.txt'')" by code_simp
  have h4: "readLines example_env (trim ''./extra-list.txt'') =
      Inr [''8.8.8.8'', ''*.Foo.org'', ''8.8.8.8'']" by code_simp
  have h5: "foldl (\<lambda>d line. route (resolveMixedEntry line) d) \<lparr>domains = [], subnets = []\<rparr>
      [''8.8.8.8'', ''*.Foo.org'', ''8.8.8.8''] =
      \<lparr>domains = [''foo.org''], subnets = [''8.8.8.8/32'', ''8.8.8.8/32'']\<rparr>" by code_simp
  from mixed_list_routing [of example_env "''./extra-list.txt''" "\<lparr>domains = [], subnets = []\<rparr>",
      THEN conjunct1]
  have e: "processEntry example_env ''./extra-list.txt'' \<lparr>domains = [], subnets = []\<rparr> =
     Inr \<lparr>domains = [''foo.org''], subnets = [''8.8.8.8/32'', ''8.8.8.8/32'']\<rparr>"
    using h1 h2 h3 by (simp only: h4 h5 if_True if_False simp_thms sum.case)
  have f: "foldl (\<lambda>acc entry. case acc of Inl e \<Rightarrow> Inl e
                               | Inr d \<Rightarrow> processEntry example_env entry d)
       (Inr \<lparr>domains = [], subnets = []\<rparr>)
       [''./extra-list.txt'', ''10.0.0.0/24'', ''Sub.Example.com ''] =
     Inr \<lparr>domains = [''foo.org'', ''sub.example.com''],
          subnets = [''8.8.8.8/32'', ''8.8.8.8/32'', ''10.0.0.0/24'']\<rparr>" by code_simp
  from mixed_list_routing [of example_env _ "\<lparr>domains = [], subnets = []\<rparr>"
      "[''./extra-list.txt'', ''10.0.0.0/24'', ''Sub.Example.com '']",
      THEN conjunct2, THEN conjunct1]
  have l: "processList example_env [''./extra-list.txt'', ''10.0.0.0/24'', ''Sub.Example.com '']
       \<lparr>domains = [], subnets = []\<rparr> =
     Inr \<lparr>domains = [''foo.org'', ''sub.example.com''],
          subnets = [''8.8.8.8/32'', ''8.8.8.8/32'', ''10.0.0.0/24'']\<rparr>"
    by (simp only: f)
  from mixed_list_routing [of example_env _ _ _
      "\<lparr>rule_domains = None, rule_subnets = None,
        rule_list = Some [''./extra-list.txt'', ''10.0.0.0/24'', ''Sub.Example.com ''],
        rule_outbound = ''direct''\<rparr>" "[]",
      THEN conjunct2, THEN conjunct2, THEN conjunct2, THEN conjunct1]
  have r: "processRule example_env
       \<lparr>rule_domains = None, rule_subnets = None,
        rule_list = Some [''./extra-list.txt'', ''10.0.0.0/24'', ''Sub.Example.com ''],
        rule_outbound = ''direct''\<rparr> [] =
     Inr [(''direct'', \<lparr>domains = [''foo.org'', ''sub.example.com''],
                        subnets = [''8.8.8.8/32'', ''8.8.8.8/32'', ''10.0.0.0/24'']\<rparr>)]"
    by (simp add: l del: processList.simps)
  show ?thesis by (intro conjI h1 h2 h3 h4 e l r)
qed

section \<open>Finalization and emission\<close>

lemma newSet_Nil: "newSet [] = []"
  by (simp add: newSet_def)

lemma newSet_snoc:
  "newSet (xs @ [x]) = (if x \<in> set (newSet xs) then newSet xs else newSet xs @ [x])"
  by (simp add: newSet_def)

lemma set_newSet: "set (newSet xs) = set xs"
  by (induction xs rule: rev_induct) (auto simp: newSet_Nil newSet_snoc)

lemma distinct_newSet: "distinct (newSet xs)"
  by (induction xs rule: rev_induct) (auto simp: newSet_Nil newSet_snoc)

lemma firstIndex_less: "y \<in> set xs \<Longrightarrow> firstIndex xs y < length xs"
  unfolding firstIndex_def
  by (induction xs) auto

lemma firstIndex_append: "y \<in> set xs \<Longrightarrow> firstIndex (xs @ zs) y = firstIndex xs y"
  unfolding firstIndex_def by (induction xs) auto

lemma firstIndex_new: "x \<notin> set xs \<Longrightarrow> firstIndex (xs @ [x]) x = length xs"
  unfolding firstIndex_def by (induction xs) auto

lemma newSet_order:
  "sorted_wrt (\<lambda>x y. firstIndex xs x < firstIndex xs y) (newSet xs)"
proof (induction xs rule: rev_induct)
  case Nil
  then show ?case by (simp add: newSet_Nil)
next
  case (snoc x xs)
  have old: "sorted_wrt (\<lambda>a b. firstIndex (xs @ [x]) a < firstIndex (xs @ [x]) b) (newSet xs)"
    using snoc
    by (rule sorted_wrt_mono_rel [rotated]) (simp add: set_newSet firstIndex_append)
  show ?case
  proof (cases "x \<in> set xs")
    case True
    with old show ?thesis by (simp add: newSet_snoc set_newSet)
  next
    case False
    have "firstIndex (xs @ [x]) a < firstIndex (xs @ [x]) x" if "a \<in> set xs" for a
      using that False by (simp add: firstIndex_append firstIndex_new firstIndex_less)
    with old False show ?thesis
      by (simp add: newSet_snoc set_newSet sorted_wrt_append)
  qed
qed

text \<open>
  Claim C6. When all declarations have been processed, \<^verbatim>\<open>main\<close> deduplicates each
  accumulator once, right before its rule set is generated, the domains and the subnets
  each on their own. A deduplicated sequence has no element twice, has the elements of
  the sequence it came from, and keeps them in the order of their first occurrences.
\<close>

theorem finalization_deduplicates:
  assumes "processRules env (config_rules config) [] = Inr outbounds"
  shows "main env config =
           Inr (map (\<lambda>(outbound, data). generateSrs env outbound (deduplicate data)) outbounds) \<and>
         (\<forall>(outbound, data) \<in> set outbounds.
            domains (deduplicate data) = newSet (domains data) \<and>
            subnets (deduplicate data) = newSet (subnets data) \<and>
            distinct (domains (deduplicate data)) \<and>
            set (domains (deduplicate data)) = set (domains data) \<and>
            sorted_wrt (\<lambda>x y. firstIndex (domains data) x < firstIndex (domains data) y)
              (domains (deduplicate data)) \<and>
            distinct (subnets (deduplicate data)) \<and>
            set (subnets (deduplicate data)) = set (subnets data) \<and>
            sorted_wrt (\<lambda>x y. firstIndex (subnets data) x < firstIndex (subnets data) y)
              (subnets (deduplicate data)))"
proof -
  have m: "main env config =
      Inr (map (\<lambda>(outbound, data). generateSrs env outbound (deduplicate data)) outbounds)"
    using assms by (simp add: main_def)
  have d: "domains (deduplicate data) = newSet (domains data)"
    and s: "subnets (deduplicate data) = newSet (subnets data)" for data
    by (simp_all add: deduplicate_def)
  show ?thesis
    unfolding d s using m
    by (simp add: distinct_newSet set_newSet newSet_order split_beta)
qed

theorem finalization_deduplicates_witness:
  "processRules example_env (config_rules example_config) [] =
     Inr [(''direct'', \<lparr>domains = [''example.com''], subnets = [''8.8.8.8/32'', ''1.1.1.1/32'']\<rparr>),
          (''block'', \<lparr>domains = [], subnets = []\<rparr>)] \<and>
   main example_env example_config =
     Inr (map (\<lambda>(outbound, data). generateSrs example_env outbound (deduplicate data))
        [(''direct'', \<lparr>domains = [''example.com''], subnets = [''8.8.8.8/32'', ''1.1.1.1/32'']\<rparr>),
         (''block'', \<lparr>domains = [], subnets = []\<rparr>)]) \<and>
   distinct (subnets (deduplicate \<lparr>domains = [''example.com''], subnets = [''8.8.8.8/32'', ''1.1.1.1/32'']\<rparr>))"
proof -
  have h: "processRules example_env (config_rules example_config) [] =
     Inr [(''direct'', \<lparr>domains = [''example.com''], subnets = [''8.8.8.8/32'', ''1.1.1.1/32'']\<rparr>),
          (''block'', \<lparr>domains = [], subnets = []\<rparr>)]" by code_simp
  note t = finalization_deduplicates [OF h]
  from t have m: "main example_env example_config =
     Inr (map (\<lambda>(outbound, data). generateSrs example_env outbound (deduplicate data))
        [(''direct'', \<lparr>domains = [''example.com''], subnets = [''8.8.8.8/32'', ''1.1.1.1/32'']\<rparr>),
         (''block'', \<lparr>domains = [], subnets = []\<rparr>)])"
    by (rule conjunct1)
  have "(''direct'', \<lparr>domains = [''example.com''], subnets = [''8.8.8.8/32'', ''1.1.1.1/32'']\<rparr>)
      \<in> set [(''direct'', \<lparr>domains = [''example.com''], subnets = [''8.8.8.8/32'', ''1.1.1.1/32'']\<rparr>),
         (''block'', \<lparr>domains = [], subnets = []\<rparr>)]"
    by simp
  note t [THEN conjunct2, THEN bspec, OF this, unfolded prod.case]
  then have "distinct (subnets (deduplicate
      \<lparr>domains = [''example.com''], subnets = [''8.8.8.8/32'', ''1.1.1.1/32'']\<rparr>))"
    by (elim conjE)
  with h m show ?thesis by (intro conjI)
qed

text \<open>
  Claim C7. \<^verbatim>\<open>generateSrs\<close> writes a document of version 3 whose rules are a
  \<^verbatim>\<open>domain_suffix\<close> block if there are domains, followed by an \<^verbatim>\<open>ip_cidr\<close> block if
  there are subnets. With neither it writes no document and reports the outbound as
  skipped; the run goes on and ends without an error.
\<close>

theorem generateSrs_correct:
  "document_of (generateSrs env outboundName data) =
     (if domains data = [] \<and> subnets data = [] then None
      else Some \<lparr>version = 3,
                 rules = (if domains data \<noteq> [] then [domain_suffix (domains data)] else []) @
                         (if subnets data \<noteq> [] then [ip_cidr (subnets data)] else [])\<rparr>) \<and>
   (generateSrs env outboundName data = Skipping outboundName \<longleftrightarrow>
      domains data = [] \<and> subnets data = []) \<and>
   (processRules env (config_rules config) [] = Inr outbounds \<and>
    (outboundName, data) \<in> set outbounds \<and> domains data = [] \<and> subnets data = [] \<longrightarrow>
      (\<exists>outs. main env config = Inr outs \<and> Skipping outboundName \<in> set outs))"
proof -
  have 1: "document_of (generateSrs env outboundName data) =
     (if domains data = [] \<and> subnets data = [] then None
      else Some \<lparr>version = 3,
                 rules = (if domains data \<noteq> [] then [domain_suffix (domains data)] else []) @
                         (if subnets data \<noteq> [] then [ip_cidr (subnets data)] else [])\<rparr>)"
    by (simp add: generateSrs_def Let_def)
  have 2: "generateSrs env outboundName data = Skipping outboundName \<longleftrightarrow>
      domains data = [] \<and> subnets data = []"
    by (simp add: generateSrs_def Let_def)
  have 3: "\<exists>outs. main env config = Inr outs \<and> Skipping outboundName \<in> set outs"
    if p: "processRules env (config_rules config) [] = Inr outbounds"
      and m: "(outboundName, data) \<in> set outbounds"
      and e: "domains data = []" "subnets data = []"
  proof -
    from e have "generateSrs env outboundName (deduplicate data) = Skipping outboundName"
      by (simp add: generateSrs_def deduplicate_def newSet_Nil)
    with m have "Skipping outboundName \<in>
        set (map (\<lambda>(outbound, data). generateSrs env outbound (deduplicate data)) outbounds)"
      by force
    with p show ?thesis by (simp add: main_def)
  qed
  from 1 2 3 show ?thesis by blast
qed

theorem generateSrs_correct_witness:
  "processRules example_env (config_rules example_config) [] =
     Inr [(''direct'', \<lparr>domains = [''example.com''], subnets = [''8.8.8.8/32'', ''1.1.1.1/32'']\<rparr>),
          (''block'', \<lparr>domains = [], subnets = []\<rparr>)] \<and>
   (\<exists>outs. main example_env example_config = Inr outs \<and> Skipping ''block'' \<in> set outs) \<and>
   document_of (generateSrs example_env ''direct''
       \<lparr>domains = [''example.com''], subnets = [''8.8.8.8/32'', ''1.1.1.1/32'']\<rparr>) =
     Some \<lparr>version = 3,
           rules = [domain_suffix [''example.com''], ip_cidr [''8.8.8.8/32'', ''1.1.1.1/32'']]\<rparr>"
proof -
  have h: "processRules example_env (config_rules example_config) [] =
     Inr [(''direct'', \<lparr>domains = [''example.com''], subnets = [''8.8.8.8/32'', ''1.1.1.1/32'']\<rparr>),
          (''block'', \<lparr>domains = [], subnets = []\<rparr>)]" by code_simp
  have m: "(''block'', \<lparr>domains = [], subnets = []\<rparr>) \<in>
     set [(''direct'', \<lparr>domains = [''example.com''], subnets = [''8.8.8.8/32'', ''1.1.1.1/32'']\<rparr>),
          (''block'', \<lparr>domains = [], subnets = []\<rparr>)]" by simp
  have e: "domains \<lparr>domains = [], subnets = []\<rparr> = [] \<and> subnets \<lparr>domains = [], subnets = []\<rparr> = []"
    by simp
  from generateSrs_correct [of example_env "''block''" "\<lparr>domains = [], subnets = []\<rparr>" example_config,
      THEN conjunct2, THEN conjunct2, rule_format, OF conjI [OF h conjI [OF m e]]]
  have s: "\<exists>outs. main example_env example_config = Inr outs \<and> Skipping ''block'' \<in> set outs" .
  from generateSrs_correct [of example_env "''direct''"
      "\<lparr>domains = [''example.com''], subnets = [''8.8.8.8/32'', ''1.1.1.1/32'']\<rparr>", THEN conjunct1]
  have d: "document_of (generateSrs example_env ''direct''
       \<lparr>domains = [''example.com''], subnets = [''8.8.8.8/32'', ''1.1.1.1/32'']\<rparr>) =
     Some \<lparr>version = 3,
           rules = [domain_suffix [''example.com''], ip_cidr [''8.8.8.8/32'', ''1.1.1.1/32'']]\<rparr>"
    by simp
  from h s d show ?thesis by (intro conjI)
qed

section \<open>The invariant of the accumulators\<close>

lemma set_update_subset: "set (AList.update k v al) \<subseteq> insert (k, v) (set al)"
  by (induction al) auto

lemma normalized_addMixedEntry: "normalized d \<Longrightarrow> normalized (addMixedEntry l d)"
  by (auto simp: normalized_def addMixedEntry_def Let_def)

lemma normalized_foldl:
  "normalized d \<Longrightarrow> normalized (foldl (\<lambda>d l. addMixedEntry l d) d ls)"
  by (induction ls arbitrary: d) (simp_all add: normalized_addMixedEntry)

lemma normalized_processEntry:
  "normalized d \<Longrightarrow> processEntry env e d = Inr d' \<Longrightarrow> normalized d'"
  unfolding processEntry_def Let_def
  by (auto simp: normalized_foldl split: if_splits sum.splits) (auto simp: normalized_def)

lemma normalized_processList:
  "normalized d \<Longrightarrow> processList env es d = Inr d' \<Longrightarrow> normalized d'"
proof (induction es arbitrary: d)
  case Nil
  then show ?case by simp
next
  case (Cons e es)
  then show ?case
    by (auto split: sum.splits dest: normalized_processEntry)
qed

lemma normalized_empty: "normalized \<lparr>domains = [], subnets = []\<rparr>"
  by (simp add: normalized_def)

lemma normalized_domains:
  "normalized d \<Longrightarrow> normalized (d\<lparr>domains := domains d @ map normalizeDomainSuffix ls\<rparr>)"
  by (auto simp: normalized_def)

lemma normalized_subnets:
  "normalized d \<Longrightarrow> normalized (d\<lparr>subnets := subnets d @ map normalizeCidr ls\<rparr>)"
  by (auto simp: normalized_def)

lemma normalized_processRule:
  assumes inv: "\<forall>(k, d) \<in> set obs. normalized d"
    and run: "processRule env r obs = Inr obs'"
  shows "\<forall>(k, d) \<in> set obs'. normalized d"
proof -
  define key where "key = rule_outbound r"
  define obs1 where "obs1 = (if map_of obs key = None
      then AList.update key \<lparr>domains = [], subnets = []\<rparr> obs else obs)"
  define d0 where "d0 = (case map_of obs1 key of Some d \<Rightarrow> d | None \<Rightarrow> \<lparr>domains = [], subnets = []\<rparr>)"
  have inv1: "\<forall>(k, d) \<in> set obs1. normalized d"
    using inv set_update_subset [of key "\<lparr>domains = [], subnets = []\<rparr>" obs] normalized_empty
    unfolding obs1_def by auto
  have n0: "normalized d0"
    unfolding d0_def using inv1 normalized_empty
    by (auto split: option.splits dest: map_of_SomeD)
  from run obtain d1 d2 d3 where
    s1: "(case rule_domains r of None \<Rightarrow> Inr d0
          | Some src \<Rightarrow> if src = [] then Inr d0
              else (case readLines env src of Inl e \<Rightarrow> Inl e
                    | Inr ls \<Rightarrow> Inr (d0\<lparr>domains := domains d0 @ map normalizeDomainSuffix ls\<rparr>))) = Inr d1"
    and s2: "(case rule_subnets r of None \<Rightarrow> Inr d1
          | Some src \<Rightarrow> if src = [] then Inr d1
              else (case readLines env src of Inl e \<Rightarrow> Inl e
                    | Inr ls \<Rightarrow> Inr (d1\<lparr>subnets := subnets d1 @ map normalizeCidr ls\<rparr>))) = Inr d2"
    and s3: "(case rule_list r of None \<Rightarrow> Inr d2
          | Some entries \<Rightarrow>
              if length entries > 0 then processList env entries d2 else Inr d2) = Inr d3"
    and res: "obs' = AList.update key d3 obs1"
    unfolding processRule_def Let_def key_def [symmetric] obs1_def [symmetric] d0_def [symmetric]
    by (auto split: sum.splits)
  from s1 n0 have n1: "normalized d1"
    by (auto split: option.splits if_splits sum.splits simp: normalized_domains)
  from s2 n1 have n2: "normalized d2"
    by (auto split: option.splits if_splits sum.splits simp: normalized_subnets)
  from s3 n2 have n3: "normalized d3"
    by (auto split: option.splits if_splits dest: normalized_processList)
  show ?thesis
    unfolding res using inv1 n3 set_update_subset [of key d3 obs1] by auto
qed

lemma normalized_processRules:
  "\<forall>(k, d) \<in> set obs. normalized d \<Longrightarrow> processRules env rs obs = Inr obs' \<Longrightarrow>
   \<forall>(k, d) \<in> set obs'. normalized d"
proof (induction rs arbitrary: obs)
  case Nil
  then show ?case by simp
next
  case (Cons r rs)
  from Cons.prems(2) obtain obs1 where
    1: "processRule env r obs = Inr obs1" and 2: "processRules env rs obs1 = Inr obs'"
    by (auto split: sum.splits)
  from normalized_processRule [OF Cons.prems(1) 1] have "\<forall>(k, d) \<in> set obs1. normalized d" .
  from Cons.IH [OF this 2] show ?case .
qed

text \<open>
  Claim C8. After any number of declarations has been merged, every domain of every
  accumulator is a value of \<^verbatim>\<open>normalizeDomainSuffix\<close> and every subnet a value of
  \<^verbatim>\<open>normalizeCidr\<close>, whichever of the three channels brought it in.
\<close>

theorem accumulators_normalized:
  assumes "processRules env (take n (config_rules config)) [] = Inr outbounds"
    and "(outbound, data) \<in> set outbounds"
  shows "(\<forall>x \<in> set (domains data). \<exists>token. x = normalizeDomainSuffix token) \<and>
         (\<forall>x \<in> set (subnets data). \<exists>token. x = normalizeCidr token)"
proof -
  have "\<forall>(k, d) \<in> set outbounds. normalized d"
    using normalized_processRules [OF _ assms(1)] by simp
  with assms(2) have "normalized data" by auto
  then show ?thesis
    unfolding normalized_def by blast
qed

theorem accumulators_normalized_witness:
  "processRules example_env (take 2 (config_rules example_config)) [] =
     Inr [(''direct'', \<lparr>domains = [''example.com''], subnets = [''8.8.8.8/32'', ''1.1.1.1/32'']\<rparr>)] \<and>
   (\<exists>token. ''example.com'' = normalizeDomainSuffix token) \<and>
   (\<exists>token. ''8.8.8.8/32'' = normalizeCidr token) \<and>
   (\<exists>token. ''1.1.1.1/32'' = normalizeCidr token)"
proof -
  have h: "processRules example_env (take 2 (config_rules example_config)) [] =
     Inr [(''direct'', \<lparr>domains = [''example.com''], subnets = [''8.8.8.8/32'', ''1.1.1.1/32'']\<rparr>)]"
    by code_simp
  have m: "(''direct'', \<lparr>domains = [''example.com''], subnets = [''8.8.8.8/32'', ''1.1.1.1/32'']\<rparr>) \<in>
     set [(''direct'', \<lparr>domains = [''example.com''], subnets = [''8.8.8.8/32'', ''1.1.1.1/32'']\<rparr>)]"
    by simp
  note t = accumulators_normalized [OF h m, unfolded OutboundData.simps]
  from t [THEN conjunct1, THEN bspec, of "''example.com''"]
  have 1: "\<exists>token. ''example.com'' = normalizeDomainSuffix token" by simp
  from t [THEN conjunct2, THEN bspec, of "''8.8.8.8/32''"]
  have 2: "\<exists>token. ''8.8.8.8/32'' = normalizeCidr token" by simp
  from t [THEN conjunct2, THEN bspec, of "''1.1.1.1/32''"]
  have 3: "\<exists>token. ''1.1.1.1/32'' = normalizeCidr token" by simp
  from h 1 2 3 show ?thesis by (intro conjI)
qed

end
